theory Spec2Isabelle
  imports Complex_Main "HOL-Library.Multiset"
begin

section \<open>Data model (src/types: Tile, Player, GameState)\<close>

text \<open>
  The records follow the TypeScript interfaces field by field. Three fields are renamed
  because their source names are taken in Isabelle: \<open>Tile.id\<close> is \<open>tileId\<close>,
  \<open>Tile.value\<close> is \<open>tileValue\<close> and \<open>Player.id\<close> is \<open>playerId\<close>.

  Identifiers are only ever compared for equality by the program, so they are kept in
  structured form: the player identifier \<^verbatim>\<open>p-${i}\<close> is the number \<open>i\<close>, the tile identifiers
  \<^verbatim>\<open>b-${i}\<close> and \<^verbatim>\<open>w-${i}\<close> are \<open>NumberedId BLACK i\<close> and \<open>NumberedId WHITE i\<close>, and
  \<^verbatim>\<open>b-joker\<close>, \<^verbatim>\<open>w-joker\<close> are \<open>JokerId BLACK\<close>, \<open>JokerId WHITE\<close>. A non-null identifier
  string of that shape is never empty, hence truthy in JavaScript.

  JavaScript numbers are modelled by \<open>int\<close> (tile values, the move counter) and by
  \<open>real\<close> (sort keys, random numbers).
\<close>

datatype TileColor = BLACK | WHITE

datatype TileId = NumberedId TileColor nat | JokerId TileColor

type_synonym PlayerId = nat

record Tile =
  tileId :: TileId
  color :: TileColor
  tileValue :: int
  sortValue :: real
  isRevealed :: bool
  ownerId :: "PlayerId option"
  isJoker :: bool
  isPlaced :: bool

record Player =
  playerId :: PlayerId
  name :: string
  isBot :: bool
  hand :: "Tile list"
  isEliminated :: bool
  avatar :: string

datatype GamePhase = SETUP | DRAW | GUESS | RESOLVE | TURN_END | GAME_OVER

text \<open>
  The turn log is a list of messages. Each constructor stands for one message template of
  src/App.tsx; its arguments are the values the template interpolates.
\<close>

datatype LogEntry =
    GameStarted                     \<comment> \<open>\<^verbatim>\<open>Game Started!\<close>\<close>
  | PoolEmpty                       \<comment> \<open>\<^verbatim>\<open>Pool empty. Proceed to guess.\<close>\<close>
  | PlayerDrawn TileColor           \<comment> \<open>\<^verbatim>\<open>Player drawn a ${tile.color} tile.\<close>\<close>
  | IsEliminated string             \<comment> \<open>\<^verbatim>\<open>${name} is eliminated!\<close>\<close>
  | CorrectItWas bool int           \<comment> \<open>\<^verbatim>\<open>Correct! It was ${isJoker ? 'a Joker' : value}.\<close>\<close>
  | WrongGuess                      \<comment> \<open>\<^verbatim>\<open>Wrong guess!\<close>\<close>
  | RevealedDrawn TileColor bool int  \<comment> \<open>\<^verbatim>\<open>Revealed drawn tile: ${color} ${isJoker ? 'Joker' : value}\<close>\<close>
  | Wins string                     \<comment> \<open>\<^verbatim>\<open>${name} WINS!\<close>\<close>
  | BotCorrect                      \<comment> \<open>\<^verbatim>\<open>Bot guessed correctly!\<close>\<close>
  | BotWrong                        \<comment> \<open>\<^verbatim>\<open>Bot guessed wrong.\<close>\<close>
  | TimeRanOut                      \<comment> \<open>\<^verbatim>\<open>Time ran out! Drawn tile revealed.\<close>\<close>

record GameState =
  players :: "Player list"
  currentTurnPlayerId :: PlayerId
  drawnTile :: "Tile option"
  pool :: "Tile list"
  phase :: GamePhase
  winnerId :: "PlayerId option"
  turnLog :: "LogEntry list"
  moveNumber :: int

text \<open>
  What a handler can do besides returning: raise a JavaScript \<open>TypeError\<close> (a property
  read on \<open>undefined\<close>), or leave the Tile type (an array write past the end of a hand,
  which JavaScript answers by extending the array with an object that has no tile
  fields). A handler that contains a loop returns an \<open>option\<close>: \<open>None\<close> means that the
  loop never ends.
\<close>

datatype error = TypeError | NotATile

type_synonym 'a result = "error + 'a"

section \<open>Constants and the tile factory (src/constants.ts)\<close>

definition TOTAL_NUMBERS :: nat where
  "TOTAL_NUMBERS = 12"

definition JOKER_VALUE :: int where
  "JOKER_VALUE = - 1"

definition numberTile :: "TileColor \<Rightarrow> nat \<Rightarrow> Tile" where
  "numberTile c i =
     \<lparr>tileId = NumberedId c i, color = c, tileValue = int i, sortValue = real i,
      isRevealed = False, ownerId = None, isJoker = False, isPlaced = False\<rparr>"

definition jokerTile :: "TileColor \<Rightarrow> Tile" where
  "jokerTile c =
     \<lparr>tileId = JokerId c, color = c, tileValue = JOKER_VALUE, sortValue = 100,
      isRevealed = False, ownerId = None, isJoker = True, isPlaced = False\<rparr>"

definition createInitialTiles :: "bool \<Rightarrow> Tile list" where
  "createInitialTiles includeJokers =
     concat (map (\<lambda>i. [numberTile BLACK i, numberTile WHITE i]) [0..<TOTAL_NUMBERS])
     @ (if includeJokers then [jokerTile BLACK, jokerTile WHITE] else [])"

section \<open>Hand ordering (src/constants.ts, sortHand)\<close>

text \<open>
  \<open>compareTiles\<close> is the comparator handed to \<^verbatim>\<open>Array.prototype.sort\<close>: negative when
  \<open>a\<close> goes first, positive when \<open>b\<close> goes first.
\<close>

definition compareTiles :: "Tile \<Rightarrow> Tile \<Rightarrow> real" where
  "compareTiles a b =
     (if \<bar>sortValue a - sortValue b\<bar> > 0.001 then sortValue a - sortValue b
      else if color a \<noteq> color b then (if color a = BLACK then - 1 else 1)
      else 0)"

text \<open>
  \<^verbatim>\<open>[...tiles].sort(cmp)\<close> is a stable sort whenever the comparator is consistent; on
  other comparators ECMAScript leaves the order to the implementation. The model is the
  stable insertion sort: going through the array from its end, each tile is put in front
  of the first tile it does not have to follow.
\<close>

fun insertTile :: "Tile \<Rightarrow> Tile list \<Rightarrow> Tile list" where
  "insertTile x [] = [x]"
| "insertTile x (y # ys) =
     (if compareTiles x y \<le> 0 then x # y # ys else y # insertTile x ys)"

definition sortHand :: "Tile list \<Rightarrow> Tile list" where
  "sortHand tiles = foldr insertTile tiles []"

section \<open>Turn engine (src/App.tsx)\<close>

text \<open>
  Every handler starts with \<^verbatim>\<open>if (!gameState) return\<close>; the model is the handler on a
  started game. A handler queues React state updates: an updater function is applied to
  the state left by the updates queued before it, an object replaces that state. The
  model of a handler is the state after its whole queue, the handler being called on the
  state it was rendered with.
\<close>

definition addLog :: "LogEntry \<Rightarrow> GameState \<Rightarrow> GameState" where
  "addLog msg s = s\<lparr>turnLog := take 50 (msg # turnLog s)\<rparr>"

text \<open>\<^verbatim>\<open>Array.prototype.findIndex\<close>; \<open>None\<close> is the result \<open>-1\<close>.\<close>

fun findIndex :: "('a \<Rightarrow> bool) \<Rightarrow> 'a list \<Rightarrow> nat option" where
  "findIndex P [] = None"
| "findIndex P (x # xs) =
     (if P x then Some 0 else map_option Suc (findIndex P xs))"

definition findPlayer :: "PlayerId \<Rightarrow> Player list \<Rightarrow> Player option" where
  "findPlayer pid ps = find (\<lambda>p. playerId p = pid) ps"

subsection \<open>drawTile\<close>

text \<open>\<open>r\<close> is the value of the call of \<^verbatim>\<open>Math.random()\<close>.\<close>

definition drawTile :: "real \<Rightarrow> GameState \<Rightarrow> GameState" where
  "drawTile r s =
     (if phase s \<noteq> DRAW then s
      else if pool s = [] then addLog PoolEmpty (s\<lparr>phase := GUESS\<rparr>)
      else
        let newPool = butlast (pool s);
            tile = (last (pool s))\<lparr>ownerId := Some (currentTurnPlayerId s)\<rparr>;
            currentPlayer = findPlayer (currentTurnPlayerId s) (players s);
            tile = (if (case currentPlayer of None \<Rightarrow> False | Some p \<Rightarrow> isBot p) \<and> isJoker tile
                    then tile\<lparr>sortValue := r * 12\<rparr> else tile)
        in addLog (PlayerDrawn (color tile))
             (s\<lparr>pool := newPool, drawnTile := Some tile, phase := GUESS\<rparr>))"

subsection \<open>The next-player loop of endTurn and getNextPlayerId\<close>

text \<open>
  \<^verbatim>\<open>while (players[idx].isEliminated) idx = (idx + 1) % players.length;\<close>
  The same loop stands in \<open>endTurn\<close> and in \<open>getNextPlayerId\<close>. It may run forever, which
  is the value \<open>None\<close>. Reading \<^verbatim>\<open>players[idx]\<close> outside the array gives \<open>undefined\<close>, and
  the property read on it raises.
\<close>

partial_function (option) skipEliminated :: "Player list \<Rightarrow> nat \<Rightarrow> nat result option" where
  "skipEliminated ps idx =
     (if length ps \<le> idx then Some (Inl TypeError)
      else if isEliminated (ps ! idx) then skipEliminated ps ((idx + 1) mod length ps)
      else Some (Inr idx))"

declare skipEliminated.simps [code]

text \<open>
  \<^verbatim>\<open>idx = (idx + 1) % players.length\<close> followed by the loop, for \<open>idx\<close> a result of
  \<open>findIndex\<close>. On an empty array the remainder is \<open>NaN\<close> and the first read of the loop
  raises.
\<close>

definition nextPlayerIdx :: "Player list \<Rightarrow> nat option \<Rightarrow> nat result option" where
  "nextPlayerIdx ps cur =
     (if ps = [] then Some (Inl TypeError)
      else skipEliminated ps ((case cur of None \<Rightarrow> 0 | Some i \<Rightarrow> i + 1) mod length ps))"

definition getNextPlayerId :: "Player list \<Rightarrow> PlayerId \<Rightarrow> PlayerId result option" where
  "getNextPlayerId ps currentId =
     (case nextPlayerIdx ps (findIndex (\<lambda>p. playerId p = currentId) ps) of
        None \<Rightarrow> None
      | Some (Inl e) \<Rightarrow> Some (Inl e)
      | Some (Inr idx) \<Rightarrow> Some (Inr (playerId (ps ! idx))))"

subsection \<open>endTurn\<close>

text \<open>
  The drawn tile, revealed when the turn was lost, goes into the hand of the player
  found for \<open>currentTurnPlayerId\<close>. When no such player is found, \<^verbatim>\<open>currentPlayer\<close> is the
  empty object and spreading its \<open>hand\<close> raises. The state is then replaced by an object
  built from the state the handler was rendered with, so a log entry queued before
  (by \<open>endTurn\<close> itself or by its caller) is dropped.
\<close>

definition mergeDrawn :: "bool \<Rightarrow> GameState \<Rightarrow> nat option \<Rightarrow> Player list result" where
  "mergeDrawn wasSuccess s currentPlayerIdx =
     (case drawnTile s of
        None \<Rightarrow> Inr (players s)
      | Some d \<Rightarrow>
          (case currentPlayerIdx of
             None \<Rightarrow> Inl TypeError
           | Some i \<Rightarrow>
               let tileToInsert = (if \<not> wasSuccess then d\<lparr>isRevealed := True\<rparr> else d);
                   currentPlayer = players s ! i;
                   newHand = hand currentPlayer @ [tileToInsert]
               in Inr ((players s)[i := currentPlayer\<lparr>hand := sortHand newHand\<rparr>])))"

definition endTurn :: "bool \<Rightarrow> GameState \<Rightarrow> GameState result option" where
  "endTurn wasSuccess s =
     (let currentPlayerIdx = findIndex (\<lambda>p. playerId p = currentTurnPlayerId s) (players s)
      in case mergeDrawn wasSuccess s currentPlayerIdx of
           Inl e \<Rightarrow> Some (Inl e)
         | Inr newPlayers \<Rightarrow>
             (case nextPlayerIdx newPlayers currentPlayerIdx of
                None \<Rightarrow> None
              | Some (Inl e) \<Rightarrow> Some (Inl e)
              | Some (Inr nextIdx) \<Rightarrow>
                  Some (Inr \<lparr>players = newPlayers,
                             currentTurnPlayerId = playerId (newPlayers ! nextIdx),
                             drawnTile = None,
                             pool = pool s,
                             phase = DRAW,
                             winnerId = winnerId s,
                             turnLog = turnLog s,
                             moveNumber = moveNumber s + 1\<rparr>)))"

subsection \<open>handleTileClick, submitGuess, checkWinner, continueTurn\<close>

text \<open>
  \<open>nthTile\<close> is the array read \<^verbatim>\<open>hand[index]\<close>; \<open>None\<close> is \<open>undefined\<close>, the value of a read
  outside the array (the drawn tile is rendered with the index \<open>-1\<close>).
\<close>

definition nthTile :: "Tile list \<Rightarrow> int \<Rightarrow> Tile option" where
  "nthTile h i = (if 0 \<le> i \<and> i < int (length h) then Some (h ! nat i) else None)"

record GuessModal =
  targetPlayerId :: PlayerId
  targetTileIndex :: int
  targetTileId :: TileId

text \<open>
  \<open>handleTileClick\<close> changes no game state: its result is the guess modal it opens, \<open>None\<close>
  when the click is refused.
\<close>

definition handleTileClick :: "GameState \<Rightarrow> PlayerId \<Rightarrow> int \<Rightarrow> TileId \<Rightarrow> GuessModal option result" where
  "handleTileClick s target tileIndex tileId' =
     (if phase s \<noteq> GUESS then Inr None
      else case findPlayer target (players s) of
        None \<Rightarrow> Inr None
      | Some targetPlayer \<Rightarrow>
          if isEliminated targetPlayer then Inr None
          else if playerId targetPlayer = currentTurnPlayerId s then Inr None
          else (case nthTile (hand targetPlayer) tileIndex of
                  None \<Rightarrow> Inl TypeError
                | Some targetTile \<Rightarrow>
                    if isRevealed targetTile then Inr None
                    else Inr (Some \<lparr>targetPlayerId = target, targetTileIndex = tileIndex,
                                     targetTileId = tileId'\<rparr>)))"

definition checkWinner :: "Player list \<Rightarrow> GameState \<Rightarrow> GameState" where
  "checkWinner ps s =
     (case filter (\<lambda>p. \<not> isEliminated p) ps of
        [w] \<Rightarrow> addLog (Wins (name w)) (s\<lparr>winnerId := Some (playerId w), phase := GAME_OVER\<rparr>)
      | _ \<Rightarrow> s)"

text \<open>
  \<^verbatim>\<open>players.map(p => p.id === target ? {...p, hand: newHand} : p)\<close> with
  \<^verbatim>\<open>newHand[index] = {...newHand[index], isRevealed: true}\<close>. The write is applied to every
  player carrying the identifier; past the end of a hand it would store an object that
  is no tile.
\<close>

definition revealAt :: "nat \<Rightarrow> Player \<Rightarrow> Player" where
  "revealAt i p = p\<lparr>hand := (hand p)[i := (hand p ! i)\<lparr>isRevealed := True\<rparr>]\<rparr>"

definition markRevealed :: "PlayerId \<Rightarrow> nat \<Rightarrow> Player list \<Rightarrow> Player list result" where
  "markRevealed target i ps =
     (if \<exists>p \<in> set ps. playerId p = target \<and> length (hand p) \<le> i then Inl NotATile
      else Inr (map (\<lambda>p. if playerId p = target then revealAt i p else p) ps))"

text \<open>An assignment to a field of the object that \<^verbatim>\<open>Array.prototype.find\<close> returned.\<close>

fun updateFirst :: "('a \<Rightarrow> bool) \<Rightarrow> ('a \<Rightarrow> 'a) \<Rightarrow> 'a list \<Rightarrow> 'a list" where
  "updateFirst P f [] = []"
| "updateFirst P f (x # xs) = (if P x then f x # xs else x # updateFirst P f xs)"

text \<open>
  \<^verbatim>\<open>if (updatedTarget.hand.every(t => t.isRevealed)) updatedTarget.isEliminated = true\<close>,
  returning with the player list whether the hand was all revealed, and the name logged.
\<close>

definition eliminateIfRevealed :: "PlayerId \<Rightarrow> Player list \<Rightarrow> (string option \<times> Player list) result" where
  "eliminateIfRevealed target newPlayers =
     (case findPlayer target newPlayers of
        None \<Rightarrow> Inl TypeError
      | Some updatedTargetPlayer \<Rightarrow>
          if list_all isRevealed (hand updatedTargetPlayer)
          then Inr (Some (name updatedTargetPlayer),
                    updateFirst (\<lambda>p. playerId p = target) (\<lambda>p. p\<lparr>isEliminated := True\<rparr>) newPlayers)
          else Inr (None, newPlayers))"

text \<open>
  \<open>submitGuess\<close> reads the modal that \<open>handleTileClick\<close> opened. A wrong guess is
  \<open>endTurn(false)\<close>, whose replacement of the state drops the entry \<^verbatim>\<open>Wrong guess!\<close>.
\<close>

definition submitGuess :: "GuessModal option \<Rightarrow> int \<Rightarrow> GameState \<Rightarrow> GameState result option" where
  "submitGuess guessModal v s =
     (case guessModal of
        None \<Rightarrow> Some (Inr s)
      | Some m \<Rightarrow>
         (case findPlayer (targetPlayerId m) (players s) of
            None \<Rightarrow> Some (Inr s)
          | Some targetPlayer \<Rightarrow>
             (case nthTile (hand targetPlayer) (targetTileIndex m) of
                None \<Rightarrow> Some (Inl TypeError)
              | Some targetTile \<Rightarrow>
                  if tileValue targetTile = v then
                    (case markRevealed (targetPlayerId m) (nat (targetTileIndex m)) (players s) of
                       Inl e \<Rightarrow> Some (Inl e)
                     | Inr newPlayers \<Rightarrow>
                        (case eliminateIfRevealed (targetPlayerId m) newPlayers of
                           Inl e \<Rightarrow> Some (Inl e)
                         | Inr (eliminated, newPlayers) \<Rightarrow>
                             let s1 = (case eliminated of None \<Rightarrow> s
                                       | Some n \<Rightarrow> addLog (IsEliminated n) s);
                                 s2 = s1\<lparr>players := newPlayers, phase := RESOLVE\<rparr>;
                                 s3 = addLog (CorrectItWas (isJoker targetTile) (tileValue targetTile)) s2
                             in Some (Inr (checkWinner newPlayers s3))))
                  else endTurn False s)))"

text \<open>
  The guess command of the engine: the click on a tile and the submission of a value in
  the modal that the click opened.
\<close>

definition guess :: "PlayerId \<Rightarrow> int \<Rightarrow> TileId \<Rightarrow> int \<Rightarrow> GameState \<Rightarrow> GameState result option" where
  "guess target tileIndex tileId' v s =
     (case handleTileClick s target tileIndex tileId' of
        Inl e \<Rightarrow> Some (Inl e)
      | Inr None \<Rightarrow> Some (Inr s)
      | Inr (Some m) \<Rightarrow> submitGuess (Some m) v s)"

definition continueTurn :: "GameState \<Rightarrow> GameState" where
  "continueTurn s = (if phase s = RESOLVE then s\<lparr>phase := GUESS\<rparr> else s)"

subsection \<open>handleDrop: repositioning a joker\<close>

text \<open>
  \<open>draggedId\<close> is the identifier carried by the drag, \<open>targetTileId'\<close> the tile it is
  dropped on. The new sort key is computed from the neighbours of the target in the hand
  of the current player.
\<close>

definition newSortValueFor :: "Tile list \<Rightarrow> TileId \<Rightarrow> TileId \<Rightarrow> real" where
  "newSortValueFor h draggedId targetTileId' =
     (case findIndex (\<lambda>t. tileId t = targetTileId') h of
        Some targetIndex \<Rightarrow>
          let targetTile = h ! targetIndex in
          if targetIndex = 0 then sortValue targetTile - 1
          else
            let prevTile = h ! (targetIndex - 1) in
            if tileId prevTile = draggedId \<and> targetIndex > 1
            then (sortValue (h ! (targetIndex - 2)) + sortValue targetTile) / 2
            else if tileId prevTile = draggedId then sortValue targetTile - 0.5
            else (sortValue prevTile + sortValue targetTile) / 2
      | None \<Rightarrow> (if h = [] then 0 else sortValue (last h) + 1))"

definition handleDrop :: "TileId \<Rightarrow> TileId \<Rightarrow> GameState \<Rightarrow> GameState" where
  "handleDrop draggedId targetTileId' s =
     (if draggedId = targetTileId' then s
      else case findPlayer (currentTurnPlayerId s) (players s) of
        None \<Rightarrow> s
      | Some currentPlayer \<Rightarrow>
          let h = hand currentPlayer;
              draggedTile = find (\<lambda>t. tileId t = draggedId) h;
              isDrawnTile = (case drawnTile s of None \<Rightarrow> False | Some d \<Rightarrow> tileId d = draggedId);
              draggedObj = (if isDrawnTile then drawnTile s else draggedTile)
          in case draggedObj of
               None \<Rightarrow> s
             | Some obj \<Rightarrow>
                 if \<not> isJoker obj \<or> isPlaced obj then s
                 else
                   let newSortValue = newSortValueFor h draggedId targetTileId' in
                   if isDrawnTile
                   then s\<lparr>drawnTile := map_option (\<lambda>d. d\<lparr>sortValue := newSortValue, isPlaced := True\<rparr>)
                                          (drawnTile s)\<rparr>
                   else
                     let newHand = map (\<lambda>t. if tileId t = draggedId
                                             then t\<lparr>sortValue := newSortValue, isPlaced := True\<rparr>
                                             else t) h
                     in s\<lparr>players := map (\<lambda>p. if playerId p = playerId currentPlayer
                                                then p\<lparr>hand := sortHand newHand\<rparr> else p)
                                          (players s)\<rparr>)"

subsection \<open>The automated player: executeBotMove\<close>

text \<open>
  \<open>pick r xs\<close> is \<^verbatim>\<open>xs[Math.floor(r * xs.length)]\<close>, \<open>None\<close> for \<open>undefined\<close>; with
  \<open>0 \<le> r < 1\<close>, the range of \<^verbatim>\<open>Math.random()\<close>, it is an element of a non-empty \<open>xs\<close>.
\<close>

definition pick :: "real \<Rightarrow> 'a list \<Rightarrow> 'a option" where
  "pick r xs =
     (let k = \<lfloor>r * real (length xs)\<rfloor>
      in if 0 \<le> k \<and> k < int (length xs) then Some (xs ! nat k) else None)"

text \<open>
  After a correct guess the bot's drawn tile is written into its hand by an assignment to
  the player object of the array that the queued update holds, so the update sees it.
\<close>

definition botMergeDrawn :: "GameState \<Rightarrow> Player list \<Rightarrow> Player list result" where
  "botMergeDrawn s newPlayers =
     (case drawnTile s of
        None \<Rightarrow> Inr newPlayers
      | Some d \<Rightarrow>
          (case findIndex (\<lambda>p. playerId p = currentTurnPlayerId s) newPlayers of
             None \<Rightarrow> Inl TypeError
           | Some botIdx \<Rightarrow>
               Inr (newPlayers[botIdx := (newPlayers ! botIdx)
                      \<lparr>hand := sortHand (hand (newPlayers ! botIdx) @ [d])\<rparr>])))"

definition botCorrect :: "GameState \<Rightarrow> Player \<Rightarrow> nat \<Rightarrow> GameState result option" where
  "botCorrect s target i =
     (case markRevealed (playerId target) i (players s) of
        Inl e \<Rightarrow> Some (Inl e)
      | Inr newPlayers \<Rightarrow>
         (case eliminateIfRevealed (playerId target) newPlayers of
            Inl e \<Rightarrow> Some (Inl e)
          | Inr (eliminated, newPlayers) \<Rightarrow>
             (case botMergeDrawn s newPlayers of
                Inl e \<Rightarrow> Some (Inl e)
              | Inr newPlayers \<Rightarrow>
                 (case getNextPlayerId newPlayers (currentTurnPlayerId s) of
                    None \<Rightarrow> None
                  | Some (Inl e) \<Rightarrow> Some (Inl e)
                  | Some (Inr nextId) \<Rightarrow>
                      let s1 = addLog BotCorrect s;
                          s2 = s1\<lparr>players := newPlayers, phase := DRAW,
                                  currentTurnPlayerId := nextId, drawnTile := None\<rparr>
                      in Some (Inr (checkWinner newPlayers s2))))))"

text \<open>
  The three lists the bot picks from: the other players still in the game, the hidden
  tiles of the target with their indices, and the values a guess can take.
\<close>

definition opponents :: "GameState \<Rightarrow> Player list" where
  "opponents s =
     filter (\<lambda>p. playerId p \<noteq> currentTurnPlayerId s \<and> \<not> isEliminated p) (players s)"

definition hiddenTiles :: "Player \<Rightarrow> (Tile \<times> nat) list" where
  "hiddenTiles target =
     filter (\<lambda>(t, i). \<not> isRevealed t) (zip (hand target) [0..<length (hand target)])"

definition possibleValues :: "bool \<Rightarrow> int list" where
  "possibleValues includeJokers =
     map int [0..<TOTAL_NUMBERS] @ (if includeJokers then [JOKER_VALUE] else [])"

text \<open>
  \<open>includeJokers\<close> is the field of the game configuration; \<open>rDraw\<close>, \<open>rTarget\<close>, \<open>rTile\<close> and
  \<open>rValue\<close> are the values of the four calls of \<^verbatim>\<open>Math.random()\<close>. A wrong guess is
  \<open>endTurn(false)\<close>, and the phase \<open>RESOLVE\<close> is \<open>endTurn(true)\<close>.
\<close>

definition executeBotMove ::
    "bool \<Rightarrow> real \<Rightarrow> real \<Rightarrow> real \<Rightarrow> real \<Rightarrow> GameState \<Rightarrow> GameState result option" where
  "executeBotMove includeJokers rDraw rTarget rTile rValue s =
     (if phase s = DRAW then Some (Inr (drawTile rDraw s))
      else if phase s = GUESS then
        (if opponents s = [] then Some (Inr s)
         else case pick rTarget (opponents s) of
           None \<Rightarrow> Some (Inl TypeError)
         | Some target \<Rightarrow>
             if hiddenTiles target = [] then Some (Inr s)
             else (case pick rTile (hiddenTiles target) of
                     None \<Rightarrow> Some (Inl TypeError)
                   | Some (targetTile, i) \<Rightarrow>
                       if pick rValue (possibleValues includeJokers) = Some (tileValue targetTile)
                       then botCorrect s target i
                       else endTurn False s))
      else if phase s = RESOLVE then endTurn True s
      else Some (Inr s))"

subsection \<open>handleTimeOut\<close>

text \<open>
  With a drawn tile in play the timeout is \<open>endTurn(false)\<close> (whose replacement of the
  state drops the entry \<^verbatim>\<open>Time ran out!\<close>); without one it is \<open>drawTile\<close>.
\<close>

definition handleTimeOut :: "real \<Rightarrow> GameState \<Rightarrow> GameState result option" where
  "handleTimeOut r s =
     (if drawnTile s \<noteq> None then endTurn False s else Some (Inr (drawTile r s)))"

subsection \<open>Where the host calls endTurn\<close>

text \<open>
  \<open>endTurn\<close> checks neither the phase nor the winner. It is called from \<open>submitGuess\<close>,
  from \<open>executeBotMove\<close>, and from three places of the host, each behind a condition:
  the timer effect and the bot effect return at once when \<open>winnerId\<close> is set (or the
  pass screen is shown), and the Finish button is rendered in the phase \<open>RESOLVE\<close> of a
  human player only. The functions below are these three places at the moment they act:
  the timer effect when the second has passed, the bot effect when its delay has passed,
  the button when it is clicked; a button that is not rendered changes nothing.
\<close>

definition currentIsBot :: "GameState \<Rightarrow> bool" where
  "currentIsBot s =
     (case findPlayer (currentTurnPlayerId s) (players s) of None \<Rightarrow> False | Some p \<Rightarrow> isBot p)"




subsection \<open>shuffle and startGame\<close>

text \<open>
  The Fisher-Yates loop \<^verbatim>\<open>for (let i = length - 1; i > 0; i--)\<close>. \<open>rnd i\<close> is the value of
  \<^verbatim>\<open>Math.random()\<close> in the round with index \<open>i\<close>.
\<close>

fun shuffleFrom :: "(nat \<Rightarrow> real) \<Rightarrow> nat \<Rightarrow> 'a list \<Rightarrow> 'a list" where
  "shuffleFrom rnd 0 newArray = newArray"
| "shuffleFrom rnd (Suc i) newArray =
     (let j = nat \<lfloor>rnd (Suc i) * real (Suc i + 1)\<rfloor>
      in shuffleFrom rnd i (newArray[Suc i := newArray ! j, j := newArray ! Suc i]))"

definition shuffle :: "(nat \<Rightarrow> real) \<Rightarrow> 'a list \<Rightarrow> 'a list" where
  "shuffle rnd array = shuffleFrom rnd (length array - 1) array"

record PlayerSetupConfig =
  setupName :: string
  setupAvatar :: string
  setupIsBot :: bool

record GameConfig =
  playerCount :: nat
  timerSeconds :: nat
  botCount :: nat
  playerDetails :: "PlayerSetupConfig list"
  includeJokers :: bool

text \<open>
  The dealing loop of \<open>startGame\<close>, \<open>n\<close> players still to deal, the next one with index \<open>i\<close>.
  \<open>jokerRnd\<close> gives the value of \<^verbatim>\<open>Math.random()\<close> drawn for a bot's joker.
\<close>

fun dealPlayers ::
    "nat \<Rightarrow> (TileId \<Rightarrow> real) \<Rightarrow> PlayerSetupConfig list \<Rightarrow> nat \<Rightarrow> nat \<Rightarrow> Tile list
     \<Rightarrow> (Player list \<times> Tile list) result" where
  "dealPlayers tilesPerPlayer jokerRnd details i 0 pool' = Inr ([], pool')"
| "dealPlayers tilesPerPlayer jokerRnd details i (Suc n) pool' =
     (if length details \<le> i then Inl TypeError
      else
        let d = details ! i;
            h = map (\<lambda>t. t\<lparr>ownerId := Some i\<rparr>) (take tilesPerPlayer pool');
            h = (if setupIsBot d
                 then map (\<lambda>t. if isJoker t then t\<lparr>sortValue := jokerRnd (tileId t) * 12\<rparr> else t) h
                 else h);
            p = \<lparr>playerId = i, name = setupName d, isBot = setupIsBot d, hand = sortHand h,
                 isEliminated = False, avatar = setupAvatar d\<rparr>
        in case dealPlayers tilesPerPlayer jokerRnd details (Suc i) n (drop tilesPerPlayer pool') of
             Inl e \<Rightarrow> Inl e
           | Inr (ps, rest) \<Rightarrow> Inr (p # ps, rest))"

definition startGame :: "GameConfig \<Rightarrow> (nat \<Rightarrow> real) \<Rightarrow> (TileId \<Rightarrow> real) \<Rightarrow> GameState result" where
  "startGame newConfig rnd jokerRnd =
     (let shuffledTiles = shuffle rnd (createInitialTiles (includeJokers newConfig));
          tilesPerPlayer = (if playerCount newConfig = 4 then 3 else 4)
      in case dealPlayers tilesPerPlayer jokerRnd (playerDetails newConfig) 0
                (playerCount newConfig) shuffledTiles of
           Inl e \<Rightarrow> Inl e
         | Inr (ps, rest) \<Rightarrow>
             (case ps of
                [] \<Rightarrow> Inl TypeError
              | p0 # _ \<Rightarrow>
                  Inr \<lparr>players = ps, currentTurnPlayerId = playerId p0, drawnTile = None,
                       pool = rest, phase = DRAW, winnerId = None,
                       turnLog = [GameStarted], moveNumber = 1\<rparr>))"

section \<open>Reachable game states\<close>

text \<open>
  The setup form (src/components/GameSetup.tsx) offers two to four players and fills in
  the details of each one; \<^verbatim>\<open>Math.random()\<close> is at least 0 and less than 1.
\<close>

definition validSetup :: "GameConfig \<Rightarrow> bool" where
  "validSetup c \<longleftrightarrow> 2 \<le> playerCount c \<and> playerCount c \<le> 4 \<and> playerCount c \<le> length (playerDetails c)"

text \<open>
  One command of the engine, having returned. No command is held back by the phase or
  by the kind of player: the handlers are taken as they are. The guess command is
  \<open>guess\<close>, the click and the submission together.
\<close>

inductive step :: "GameState \<Rightarrow> GameState \<Rightarrow> bool" where
  draw: "step s (drawTile r s)"
| guess: "guess target tileIndex tid v s = Some (Inr s') \<Longrightarrow> step s s'"
| continue: "step s (continueTurn s)"
| endTurn: "endTurn wasSuccess s = Some (Inr s') \<Longrightarrow> step s s'"
| drop: "step s (handleDrop draggedId tid s)"
| bot: "executeBotMove jokers rDraw rTarget rTile rValue s = Some (Inr s') \<Longrightarrow> step s s'"
| timeout: "handleTimeOut r s = Some (Inr s') \<Longrightarrow> step s s'"

text \<open>A reachable state is the state of a started game after any sequence of commands.\<close>

inductive reachable :: "GameState \<Rightarrow> bool" where
  start: "\<lbrakk>validSetup c; \<forall>i. 0 \<le> rnd i \<and> rnd i < 1; startGame c rnd jokerRnd = Inr s\<rbrakk>
          \<Longrightarrow> reachable s"
| after: "\<lbrakk>reachable s; step s s'\<rbrakk> \<Longrightarrow> reachable s'"

section \<open>Properties the specification speaks about\<close>

text \<open>
  \<open>firstActiveAfter ps i d\<close>: going round the table from seat \<open>i\<close>, the seat \<open>d\<close> places
  further (\<open>1 \<le> d\<close>, and \<open>d = length ps\<close> is seat \<open>i\<close> again) holds the first player who is not
  eliminated.
\<close>

definition firstActiveAfter :: "Player list \<Rightarrow> nat \<Rightarrow> nat \<Rightarrow> bool" where
  "firstActiveAfter ps i d \<longleftrightarrow>
     1 \<le> d \<and> d \<le> length ps \<and> \<not> isEliminated (ps ! ((i + d) mod length ps)) \<and>
     (\<forall>k \<in> {1..<d}. isEliminated (ps ! ((i + k) mod length ps)))"

text \<open>The two halves of the ordering property of a sorted hand.\<close>

definition keysAscending :: "Tile list \<Rightarrow> bool" where
  "keysAscending out \<longleftrightarrow> sorted (map sortValue out)"

definition blackFirstOnTies :: "Tile list \<Rightarrow> bool" where
  "blackFirstOnTies out \<longleftrightarrow>
     sorted_wrt (\<lambda>a b. \<bar>sortValue a - sortValue b\<bar> \<le> 0.001 \<longrightarrow> color a = BLACK \<or> color b = WHITE) out"

text \<open>
  Sort keys that are pairwise equal or more than the tolerance apart: on such tiles the
  comparator is the lexicographic order \<open>tileLe\<close> on key and colour.
\<close>

definition keysApart :: "Tile list \<Rightarrow> bool" where
  "keysApart ts \<longleftrightarrow>
     (\<forall>a \<in> set ts. \<forall>b \<in> set ts. sortValue a = sortValue b \<or> \<bar>sortValue a - sortValue b\<bar> > 0.001)"

definition tileLe :: "Tile \<Rightarrow> Tile \<Rightarrow> bool" where
  "tileLe a b \<longleftrightarrow>
     sortValue a < sortValue b \<or> (sortValue a = sortValue b \<and> (color a = BLACK \<or> color b = WHITE))"

section \<open>Example data\<close>

definition mkPlayer :: "PlayerId \<Rightarrow> bool \<Rightarrow> Tile list \<Rightarrow> bool \<Rightarrow> Player" where
  "mkPlayer i b h e =
     \<lparr>playerId = i, name = ''player'', isBot = b, hand = h, isEliminated = e, avatar = ''''\<rparr>"

definition revealed :: "Tile \<Rightarrow> Tile" where
  "revealed t = t\<lparr>isRevealed := True\<rparr>"

text \<open>A white 3, and a black joker that a bot was dealt with the random sort key 3.0005.\<close>

definition whiteThree :: Tile where
  "whiteThree = numberTile WHITE 3"

definition botJoker :: Tile where
  "botJoker = (jokerTile BLACK)\<lparr>sortValue := 3.0005\<rparr>"

text \<open>Three seats, the second and third eliminated; and a table with nobody left.\<close>

definition oneLeft :: "Player list" where
  "oneLeft = [mkPlayer 0 False [numberTile BLACK 1] False,
              mkPlayer 1 False [revealed (numberTile BLACK 2)] True,
              mkPlayer 2 False [revealed (numberTile WHITE 2)] True]"

definition noneLeft :: "Player list" where
  "noneLeft = [mkPlayer 0 False [revealed (numberTile BLACK 1)] True,
               mkPlayer 1 False [revealed (numberTile BLACK 2)] True]"


section \<open>State invariants\<close>

text \<open>The players still in the game.\<close>

definition activePlayers :: "Player list \<Rightarrow> Player list" where
  "activePlayers ps = filter (\<lambda>p. \<not> isEliminated p) ps"

text \<open>
  What holds of every reachable state: the player identifiers are distinct; the turn
  holder is a player still in the game; a player whose tiles are all revealed is
  eliminated; a winner is set exactly when one player is left; and no drawn tile is held
  in the phase \<open>DRAW\<close>.
\<close>

definition wellFormed :: "GameState \<Rightarrow> bool" where
  "wellFormed s \<longleftrightarrow>
     distinct (map playerId (players s)) \<and>
     (\<exists>p \<in> set (players s). playerId p = currentTurnPlayerId s \<and> \<not> isEliminated p) \<and>
     (\<forall>p \<in> set (players s). list_all isRevealed (hand p) \<longrightarrow> isEliminated p) \<and>
     (winnerId s \<noteq> None \<longleftrightarrow> length (activePlayers (players s)) = 1) \<and>
     (phase s = DRAW \<longrightarrow> drawnTile s = None)"

text \<open>
  The players after a correct guess at tile \<open>i\<close> of the player \<open>target\<close>: the tile is
  revealed, and the player is eliminated if that was the last hidden tile.
\<close>

definition afterCorrectGuess :: "PlayerId \<Rightarrow> nat \<Rightarrow> Player list \<Rightarrow> Player list" where
  "afterCorrectGuess target i ps =
     map (\<lambda>p. if playerId p = target
              then (revealAt i p)\<lparr>isEliminated := isEliminated p \<or> list_all isRevealed (hand (revealAt i p))\<rparr>
              else p) ps"

text \<open>
  Two player lists with the same seats: seat by seat the same identifier and the same
  eliminated flag, and a hand that is all revealed only if it was so before.
\<close>

definition sameSeats :: "Player list \<Rightarrow> Player list \<Rightarrow> bool" where
  "sameSeats ps qs \<longleftrightarrow>
     list_all2 (\<lambda>p q. playerId q = playerId p \<and> isEliminated q = isEliminated p \<and>
                      (list_all isRevealed (hand q) \<longrightarrow> list_all isRevealed (hand p))) ps qs"

text \<open>
  A valid guess command, in the words of the specification: the phase is \<open>GUESS\<close>, the
  target is a player other than the turn holder and not eliminated, the index is inside
  the target's hand and the tile there is not yet revealed.
\<close>

definition validGuess :: "GameState \<Rightarrow> PlayerId \<Rightarrow> int \<Rightarrow> bool" where
  "validGuess s target tileIndex \<longleftrightarrow>
     phase s = GUESS \<and>
     (case findPlayer target (players s) of
        None \<Rightarrow> False
      | Some tp \<Rightarrow>
          \<not> isEliminated tp \<and> target \<noteq> currentTurnPlayerId s \<and>
          (case nthTile (hand tp) tileIndex of None \<Rightarrow> False | Some t \<Rightarrow> \<not> isRevealed t))"

text \<open>The tile a guess is aimed at, when there is one.\<close>

definition targetTile :: "GameState \<Rightarrow> PlayerId \<Rightarrow> int \<Rightarrow> Tile option" where
  "targetTile s target tileIndex =
     (case findPlayer target (players s) of
        None \<Rightarrow> None
      | Some tp \<Rightarrow> nthTile (hand tp) tileIndex)"

text \<open>The players after the bot's correct guess: the drawn tile joins the bot's hand at seat \<open>b\<close>.\<close>

definition botMerged :: "GameState \<Rightarrow> nat \<Rightarrow> Player list \<Rightarrow> Player list" where
  "botMerged s b ps =
     (case drawnTile s of
        None \<Rightarrow> ps
      | Some d \<Rightarrow> ps[b := (ps ! b)\<lparr>hand := sortHand (hand (ps ! b) @ [d])\<rparr>])"

text \<open>The phase and the turn holder of the state a command returned.\<close>

definition phaseAfter :: "GameState result option \<Rightarrow> GamePhase option" where
  "phaseAfter r = (case r of Some (Inr s) \<Rightarrow> Some (phase s) | _ \<Rightarrow> None)"

definition holderAfter :: "GameState result option \<Rightarrow> PlayerId option" where
  "holderAfter r = (case r of Some (Inr s) \<Rightarrow> Some (currentTurnPlayerId s) | _ \<Rightarrow> None)"

section \<open>An example game\<close>

text \<open>
  Ada plays a bot, without jokers. With every random number 0 the shuffle turns the deck
  by one tile; \<open>dealt\<close> is the state \<open>startGame\<close> returns. Ada draws and guesses the
  bot's four tiles one after the other, going on after each of the first three:
  \<open>lastGuess\<close> is the state before her fourth guess, \<open>endgame\<close> the state after it.
\<close>

definition exampleConfig :: GameConfig where
  "exampleConfig = \<lparr>playerCount = 2, timerSeconds = 60, botCount = 1,
     playerDetails = [\<lparr>setupName = ''Ada'', setupAvatar = ''A'', setupIsBot = False\<rparr>,
                      \<lparr>setupName = ''Bot 1'', setupAvatar = ''B'', setupIsBot = True\<rparr>],
     includeJokers = False\<rparr>"

definition owned :: "PlayerId \<Rightarrow> Tile \<Rightarrow> Tile" where
  "owned i t = t\<lparr>ownerId := Some i\<rparr>"

definition dealt :: GameState where
  "dealt =
     \<lparr>players =
        [\<lparr>playerId = 0, name = ''Ada'', isBot = False,
          hand = map (owned 0) [numberTile WHITE 0, numberTile BLACK 1, numberTile WHITE 1, numberTile BLACK 2],
          isEliminated = False, avatar = ''A''\<rparr>,
         \<lparr>playerId = 1, name = ''Bot 1'', isBot = True,
          hand = map (owned 1) [numberTile WHITE 2, numberTile BLACK 3, numberTile WHITE 3, numberTile BLACK 4],
          isEliminated = False, avatar = ''B''\<rparr>],
      currentTurnPlayerId = 0, drawnTile = None,
      pool = [numberTile WHITE 4, numberTile BLACK 5, numberTile WHITE 5, numberTile BLACK 6,
              numberTile WHITE 6, numberTile BLACK 7, numberTile WHITE 7, numberTile BLACK 8,
              numberTile WHITE 8, numberTile BLACK 9, numberTile WHITE 9, numberTile BLACK 10,
              numberTile WHITE 10, numberTile BLACK 11, numberTile WHITE 11, numberTile BLACK 0],
      phase = DRAW, winnerId = None, turnLog = [GameStarted], moveNumber = 1\<rparr>"

text \<open>A guess of the value \<open>v\<close> at tile \<open>i\<close> of player 1; the state stays when the guess does not return.\<close>

definition playGuess :: "nat \<Rightarrow> int \<Rightarrow> GameState \<Rightarrow> GameState" where
  "playGuess i v s =
     (case guess 1 (int i) (tileId (hand (players s ! 1) ! i)) v s of
        Some (Inr s') \<Rightarrow> s' | _ \<Rightarrow> s)"

definition firstDraw :: GameState where
  "firstDraw = drawTile 0 dealt"

definition lastGuess :: GameState where
  "lastGuess = continueTurn (playGuess 2 3 (continueTurn (playGuess 1 3 (continueTurn
                 (playGuess 0 2 firstDraw)))))"

definition endgame :: GameState where
  "endgame = playGuess 3 4 lastGuess"

text \<open>
  Another line of the game: Ada guesses wrong at once, and the bot, having drawn, is to
  guess.
\<close>

definition botToGuess :: GameState where
  "botToGuess = drawTile 0 (playGuess 0 7 firstDraw)"

text \<open>
  A turn that ends without a guess (the timer runs out, or a guess fails): the state
  stays when \<open>endTurn\<close> does not return. And the game in which every turn is a draw and
  such an end, sixteen turns long: the pool has run out.
\<close>

definition pass :: "GameState \<Rightarrow> GameState" where
  "pass s = (case endTurn False s of Some (Inr s') \<Rightarrow> s' | _ \<Rightarrow> s)"

definition drawAndPass :: "GameState \<Rightarrow> GameState" where
  "drawAndPass s = pass (drawTile 0 s)"

definition drained :: GameState where
  "drained = (drawAndPass ^^ 16) dealt"

section \<open>The tiles of a state\<close>

text \<open>
  All tiles of a state: those in the pool, the drawn tile and those in the hands. The
  table of a state lists for each of them what neither a reveal nor a change of owner
  touches: identifier, joker flag, value, sort key and has-been-repositioned flag. It
  is a multiset, so that a tile lost or doubled would show.
\<close>

definition allTiles :: "GameState \<Rightarrow> Tile list" where
  "allTiles s =
     pool s @ (case drawnTile s of None \<Rightarrow> [] | Some d \<Rightarrow> [d]) @ concat (map hand (players s))"

definition tilesOf :: "GameState \<Rightarrow> Tile set" where
  "tilesOf s = set (allTiles s)"

type_synonym TileInfo = "TileId \<times> bool \<times> int \<times> real \<times> bool"

definition tileInfo :: "Tile \<Rightarrow> TileInfo" where
  "tileInfo t = (tileId t, isJoker t, tileValue t, sortValue t, isPlaced t)"

definition tileTable :: "GameState \<Rightarrow> TileInfo multiset" where
  "tileTable s = mset (map tileInfo (allTiles s))"

definition handTable :: "Player list \<Rightarrow> TileInfo multiset" where
  "handTable ps = mset (map tileInfo (concat (map hand ps)))"

text \<open>
  One joker of the table has a new sort key, and its has-been-repositioned flag is as
  before or newly set.
\<close>

definition jokerRekeyed :: "TileInfo multiset \<Rightarrow> TileInfo multiset \<Rightarrow> bool" where
  "jokerRekeyed M M' \<longleftrightarrow>
     (\<exists>i v k k' p p'. (i, True, v, k, p) \<in># M \<and> (p \<longrightarrow> p') \<and>
        M' = add_mset (i, True, v, k', p') (M - {#(i, True, v, k, p)#}))"

text \<open>No two tiles of the state carry the same identifier.\<close>

definition uniqueIds :: "GameState \<Rightarrow> bool" where
  "uniqueIds s \<longleftrightarrow> distinct (map tileId (allTiles s))"

text \<open>The sort key of every tile that is no joker is its value.\<close>

definition keysFaithful :: "GameState \<Rightarrow> bool" where
  "keysFaithful s \<longleftrightarrow> (\<forall>t \<in> tilesOf s. \<not> isJoker t \<longrightarrow> sortValue t = real_of_int (tileValue t))"

text \<open>The identifiers of the tiles whose has-been-repositioned flag is set.\<close>

definition placedIds :: "GameState \<Rightarrow> TileId set" where
  "placedIds s = tileId ` {t \<in> tilesOf s. isPlaced t}"

text \<open>
  The one draw in which \<open>drawTile\<close> writes a sort key: the turn holder is a bot and the
  tile it takes from the pool is a joker.
\<close>

definition botDrawsJoker :: "GameState \<Rightarrow> bool" where
  "botDrawsJoker s \<longleftrightarrow> phase s = DRAW \<and> pool s \<noteq> [] \<and> currentIsBot s \<and> isJoker (last (pool s))"

subsection \<open>A game with jokers\<close>

text \<open>
  Ada and the bot again, now with the two jokers in the deck, which the shuffle with
  every random number 0 leaves second and third from the end of the pool. Ada draws and
  lets her turn end; the bot draws the white joker; it lets its turn end, and Ada draws
  the black joker and drops it on her white 1.
\<close>

definition jokerConfig :: GameConfig where
  "jokerConfig = exampleConfig\<lparr>includeJokers := True\<rparr>"

definition jokerDealt :: GameState where
  "jokerDealt =
     dealt\<lparr>pool := [numberTile WHITE 4, numberTile BLACK 5, numberTile WHITE 5, numberTile BLACK 6,
              numberTile WHITE 6, numberTile BLACK 7, numberTile WHITE 7, numberTile BLACK 8,
              numberTile WHITE 8, numberTile BLACK 9, numberTile WHITE 9, numberTile BLACK 10,
              numberTile WHITE 10, numberTile BLACK 11, numberTile WHITE 11,
              jokerTile BLACK, jokerTile WHITE, numberTile BLACK 0]\<rparr>"

definition botToDraw :: GameState where
  "botToDraw = pass (drawTile 0 jokerDealt)"

definition botDrew :: GameState where
  "botDrew = drawTile (1 / 4) botToDraw"

definition jokerDrawn :: GameState where
  "jokerDrawn = drawTile 0 (pass botDrew)"

definition jokerPlaced :: GameState where
  "jokerPlaced = handleDrop (JokerId BLACK) (NumberedId WHITE 1) jokerDrawn"

section \<open>Facts about the helpers\<close>

lemma skip_steps:
  "j < length ps \<Longrightarrow> (\<forall>k<d. isEliminated (ps ! ((j + k) mod length ps))) \<Longrightarrow>
   \<not> isEliminated (ps ! ((j + d) mod length ps)) \<Longrightarrow>
   skipEliminated ps j = Some (Inr ((j + d) mod length ps))"
proof (induction d arbitrary: j)
  case 0
  then show ?case by (subst skipEliminated.simps) simp
next
  case (Suc d)
  let ?n = "length ps"
  let ?j = "Suc j mod ?n"
  from Suc.prems(2) have e0: "isEliminated (ps ! j)"
    using Suc.prems(1) by (metis add.right_neutral mod_less zero_less_Suc)
  have lt: "?j < ?n" using Suc.prems(1) by (intro mod_less_divisor) auto
  have shift: "(?j + k) mod ?n = (j + Suc k) mod ?n" for k
    by (simp add: mod_add_left_eq)
  have "skipEliminated ps ?j = Some (Inr ((?j + d) mod ?n))"
  proof (rule Suc.IH[OF lt])
    show "\<forall>k<d. isEliminated (ps ! ((?j + k) mod ?n))"
      using Suc.prems(2) unfolding shift by auto
    show "\<not> isEliminated (ps ! ((?j + d) mod ?n))"
      using Suc.prems(3) unfolding shift .
  qed
  then show ?case
    using e0 Suc.prems(1) by (subst skipEliminated.simps) (simp add: shift)
qed

lemma skip_returns:
  "skipEliminated ps j = Some r \<Longrightarrow>
     (r = Inl TypeError \<and> length ps \<le> j) \<or> (\<exists>i<length ps. r = Inr i \<and> \<not> isEliminated (ps ! i))"
proof (erule skipEliminated.raw_induct[rotated], goal_cases)
  case (1 sk ps idx r)
  show ?case
  proof (cases "length ps \<le> idx")
    case True
    with 1(2) show ?thesis by simp
  next
    case inside: False
    then have lt: "(idx + 1) mod length ps < length ps"
      by (intro mod_less_divisor) auto
    show ?thesis
    proof (cases "isEliminated (ps ! idx)")
      case True
      with inside 1(2) have "sk ps ((idx + 1) mod length ps) = Some r" by simp
      from 1(1)[OF this] lt show ?thesis by auto
    next
      case False
      with inside 1(2) show ?thesis by auto
    qed
  qed
qed

lemma skip_diverges:
  assumes "\<forall>p\<in>set ps. isEliminated p" "j < length ps"
  shows "skipEliminated ps j = None"
proof (cases "skipEliminated ps j")
  case None then show ?thesis .
next
  case (Some r)
  from skip_returns[OF Some] assms show ?thesis by auto
qed

text \<open>Some offset between 1 and the number of players leads from \<open>i\<close> to a player still in the game.\<close>

lemma active_offset_exists:
  assumes "i < length ps" "\<exists>p\<in>set ps. \<not> isEliminated p"
  shows "\<exists>d. firstActiveAfter ps i d"
proof -
  let ?n = "length ps"
  let ?Q = "\<lambda>d. \<not> isEliminated (ps ! ((i + Suc d) mod ?n))"
  from assms(2) obtain m where m: "m < ?n" "\<not> isEliminated (ps ! m)"
    by (auto simp: in_set_conv_nth)
  define e where "e = (m + ?n - Suc i) mod ?n"
  have npos: "0 < ?n" using assms(1) by auto
  have "(Suc i + e) mod ?n = (Suc i + (m + ?n - Suc i)) mod ?n"
    unfolding e_def by (simp only: mod_add_right_eq)
  then have "(i + Suc e) mod ?n = (Suc i + (m + ?n - Suc i)) mod ?n"
    by simp
  also have "Suc i + (m + ?n - Suc i) = m + ?n" using assms(1) by arith
  also have "(m + ?n) mod ?n = m" using m(1) by simp
  finally have Qe: "?Q e" using m(2) by simp
  define d where "d = (LEAST d. ?Q d)"
  have Qd: "?Q d" unfolding d_def using Qe by (rule LeastI)
  have dle: "d \<le> e" unfolding d_def using Qe by (rule Least_le)
  have elt: "e < ?n" unfolding e_def using npos by simp
  have before: "isEliminated (ps ! ((i + Suc k) mod ?n))" if "k < d" for k
    using that not_less_Least[of k ?Q] unfolding d_def by auto
  have "firstActiveAfter ps i (Suc d)"
    unfolding firstActiveAfter_def
  proof (intro conjI ballI)
    show "1 \<le> Suc d" by simp
    show "Suc d \<le> ?n" using dle elt by simp
    show "\<not> isEliminated (ps ! ((i + Suc d) mod ?n))" using Qd .
    fix k assume "k \<in> {1..<Suc d}"
    then obtain k' where "k = Suc k'" "k' < d" by (cases k) auto
    then show "isEliminated (ps ! ((i + k) mod ?n))" using before by simp
  qed
  then show ?thesis ..
qed

lemma nextPlayerIdx_first_active:
  assumes "i < length ps" "firstActiveAfter ps i d"
  shows "nextPlayerIdx ps (Some i) = Some (Inr ((i + d) mod length ps))"
proof -
  let ?n = "length ps"
  from assms(2) obtain d' where d: "d = Suc d'" unfolding firstActiveAfter_def by (cases d) auto
  have ne: "ps \<noteq> []" using assms(1) by auto
  have lt: "Suc i mod ?n < ?n" using assms(1) by (intro mod_less_divisor) auto
  have shift: "(Suc i mod ?n + k) mod ?n = (i + Suc k) mod ?n" for k
    by (simp add: mod_add_left_eq)
  have "skipEliminated ps (Suc i mod ?n) = Some (Inr ((Suc i mod ?n + d') mod ?n))"
  proof (rule skip_steps[OF lt])
    show "\<forall>k<d'. isEliminated (ps ! ((Suc i mod ?n + k) mod ?n))"
    proof (intro allI impI)
      fix k assume "k < d'"
      then have "Suc k \<in> {1..<d}" using d by simp
      with assms(2) show "isEliminated (ps ! ((Suc i mod ?n + k) mod ?n))"
        unfolding shift firstActiveAfter_def by blast
    qed
    show "\<not> isEliminated (ps ! ((Suc i mod ?n + d') mod ?n))"
      using assms(2) unfolding shift firstActiveAfter_def d by auto
  qed
  then show ?thesis using ne by (simp add: nextPlayerIdx_def shift d)
qed

lemma nextPlayerIdx_diverges:
  assumes "ps \<noteq> []" "\<forall>p\<in>set ps. isEliminated p"
  shows "nextPlayerIdx ps cur = None"
proof -
  have "(case cur of None \<Rightarrow> 0 | Some i \<Rightarrow> i + 1) mod length ps < length ps"
    using assms(1) by (intro mod_less_divisor) auto
  from skip_diverges[OF assms(2) this] assms(1) show ?thesis
    by (simp add: nextPlayerIdx_def)
qed

lemma mset_insertTile: "mset (insertTile x ys) = add_mset x (mset ys)"
  by (induction ys) auto

lemma mset_sortHand: "mset (sortHand ts) = mset ts"
  unfolding sortHand_def by (induction ts) (auto simp: mset_insertTile)

lemma set_sortHand: "set (sortHand ts) = set ts"
  using mset_sortHand by (metis set_mset_mset)

lemma length_sortHand: "length (sortHand ts) = length ts"
  using mset_sortHand by (metis size_mset)

lemma set_insertTile: "set (insertTile x ys) = insert x (set ys)"
  using mset_insertTile by (metis set_mset_add_mset_insert set_mset_mset)

lemma tileLe_trans: "tileLe a b \<Longrightarrow> tileLe b c \<Longrightarrow> tileLe a c"
  unfolding tileLe_def by (cases "color b") auto

lemma tileLe_total: "tileLe a b \<or> tileLe b a"
  unfolding tileLe_def by (cases "color a"; cases "color b") auto

lemma compareTiles_apart:
  "sortValue a = sortValue b \<or> \<bar>sortValue a - sortValue b\<bar> > 0.001 \<Longrightarrow>
   compareTiles a b \<le> 0 \<longleftrightarrow> tileLe a b"
  unfolding compareTiles_def tileLe_def by (cases "color a"; cases "color b") auto

lemma sorted_insertTile:
  assumes "sorted_wrt tileLe ys"
    and "\<forall>y \<in> set ys. sortValue x = sortValue y \<or> \<bar>sortValue x - sortValue y\<bar> > 0.001"
  shows "sorted_wrt tileLe (insertTile x ys)"
  using assms
proof (induction ys)
  case Nil
  then show ?case by simp
next
  case (Cons y ys)
  have cmp: "compareTiles x y \<le> 0 \<longleftrightarrow> tileLe x y"
    using Cons.prems(2) by (intro compareTiles_apart) simp
  show ?case
  proof (cases "compareTiles x y \<le> 0")
    case True
    then have xy: "tileLe x y" using cmp by simp
    have "\<forall>z \<in> set ys. tileLe x z"
      using Cons.prems(1) xy tileLe_trans by auto
    with True xy Cons.prems(1) show ?thesis by simp
  next
    case False
    then have yx: "tileLe y x" using cmp tileLe_total by blast
    have "sorted_wrt tileLe (insertTile x ys)"
      using Cons by simp
    with False yx Cons.prems(1) show ?thesis
      by (simp add: set_insertTile)
  qed
qed

lemma sorted_sortHand:
  assumes "keysApart ts"
  shows "sorted_wrt tileLe (sortHand ts)"
  using assms unfolding sortHand_def
proof (induction ts)
  case Nil
  then show ?case by simp
next
  case (Cons t ts)
  have "keysApart ts" using Cons.prems unfolding keysApart_def by simp
  then have "sorted_wrt tileLe (foldr insertTile ts [])" by (rule Cons.IH)
  moreover have "\<forall>y \<in> set (foldr insertTile ts []). sortValue t = sortValue y \<or> \<bar>sortValue t - sortValue y\<bar> > 0.001"
    using Cons.prems set_sortHand[of ts] unfolding keysApart_def sortHand_def by simp
  ultimately show ?case by (simp add: sorted_insertTile)
qed

lemma findIndex_Some:
  "findIndex P xs = Some i \<Longrightarrow> i < length xs \<and> P (xs ! i) \<and> (\<forall>j<i. \<not> P (xs ! j))"
proof (induction xs arbitrary: i)
  case Nil
  then show ?case by simp
next
  case (Cons x xs)
  show ?case
  proof (cases "P x")
    case True
    with Cons.prems show ?thesis by simp
  next
    case False
    with Cons.prems obtain i' where i': "findIndex P xs = Some i'" "i = Suc i'" by auto
    from Cons.IH[OF i'(1)] False i'(2) show ?thesis
      by (auto simp: nth_Cons split: nat.splits)
  qed
qed

lemma findIndex_None: "findIndex P xs = None \<longleftrightarrow> (\<forall>x \<in> set xs. \<not> P x)"
  by (induction xs) auto

lemma firstActiveAfter_cong:
  assumes "map isEliminated qs = map isEliminated ps"
  shows "firstActiveAfter qs i d = firstActiveAfter ps i d"
proof -
  have len: "length qs = length ps" using assms by (metis length_map)
  have nth: "isEliminated (qs ! j) = isEliminated (ps ! j)" if "j < length ps" for j
    using assms that len by (metis nth_map)
  show ?thesis
  proof (cases "ps = []")
    case True
    then show ?thesis using len by (simp add: firstActiveAfter_def)
  next
    case False
    then have "j mod length ps < length ps" for j by simp
    then show ?thesis unfolding firstActiveAfter_def len by (simp add: nth)
  qed
qed

lemma endTurn_with_drawn:
  assumes d: "drawnTile s = Some d"
    and i: "findIndex (\<lambda>p. playerId p = currentTurnPlayerId s) (players s) = Some i"
    and act: "\<exists>p \<in> set (players s). \<not> isEliminated p"
  shows "\<exists>k. firstActiveAfter (players s) i k \<and>
     endTurn wasSuccess s = Some (Inr
       \<lparr>players = (players s)[i := (players s ! i)
           \<lparr>hand := sortHand (hand (players s ! i) @ [if wasSuccess then d else d\<lparr>isRevealed := True\<rparr>])\<rparr>],
        currentTurnPlayerId = playerId (players s ! ((i + k) mod length (players s))),
        drawnTile = None, pool = pool s, phase = DRAW, winnerId = winnerId s,
        turnLog = turnLog s, moveNumber = moveNumber s + 1\<rparr>)"
proof -
  let ?ps = "players s"
  let ?t = "if wasSuccess then d else d\<lparr>isRevealed := True\<rparr>"
  let ?qs = "?ps[i := (?ps ! i)\<lparr>hand := sortHand (hand (?ps ! i) @ [?t])\<rparr>]"
  have ilt: "i < length ?ps" using findIndex_Some[OF i] by simp
  have m: "mergeDrawn wasSuccess s (Some i) = Inr ?qs"
    using d by (simp add: mergeDrawn_def Let_def)
  have el: "map isEliminated ?qs = map isEliminated ?ps"
    using ilt by (simp add: map_update list_update_same_conv)
  have ids: "playerId (?qs ! j) = playerId (?ps ! j)" for j
    by (cases "j = i") (use ilt in auto)
  from active_offset_exists[OF ilt act] obtain k where k: "firstActiveAfter ?ps i k" ..
  then have "firstActiveAfter ?qs i k" using firstActiveAfter_cong[OF el] by simp
  with ilt have "nextPlayerIdx ?qs (Some i) = Some (Inr ((i + k) mod length ?ps))"
    using nextPlayerIdx_first_active[of i ?qs k] by simp
  with m i have "endTurn wasSuccess s = Some (Inr
       \<lparr>players = ?qs,
        currentTurnPlayerId = playerId (?ps ! ((i + k) mod length ?ps)),
        drawnTile = None, pool = pool s, phase = DRAW, winnerId = winnerId s,
        turnLog = turnLog s, moveNumber = moveNumber s + 1\<rparr>)"
    by (simp add: endTurn_def ids Let_def)
  with k show ?thesis by blast
qed

lemma checkWinner_same [simp]:
  "players (checkWinner ps s) = players s"
  "currentTurnPlayerId (checkWinner ps s) = currentTurnPlayerId s"
  "moveNumber (checkWinner ps s) = moveNumber s"
  "drawnTile (checkWinner ps s) = drawnTile s"
  "pool (checkWinner ps s) = pool s"
  by (simp_all add: checkWinner_def addLog_def split: list.splits)

lemma checkWinner_phase:
  "phase (checkWinner ps s) =
     (if length (filter (\<lambda>p. \<not> isEliminated p) ps) = 1 then GAME_OVER else phase s)"
  by (auto simp: checkWinner_def addLog_def split: list.splits)

lemma checkWinner_winnerId:
  "winnerId (checkWinner ps s) =
     (if length (filter (\<lambda>p. \<not> isEliminated p) ps) = 1
      then Some (playerId (hd (filter (\<lambda>p. \<not> isEliminated p) ps))) else winnerId s)"
  by (auto simp: checkWinner_def addLog_def split: list.splits)

lemma addLog_same [simp]:
  "players (addLog m s) = players s"
  "currentTurnPlayerId (addLog m s) = currentTurnPlayerId s"
  "moveNumber (addLog m s) = moveNumber s"
  "drawnTile (addLog m s) = drawnTile s"
  "pool (addLog m s) = pool s"
  "phase (addLog m s) = phase s"
  "winnerId (addLog m s) = winnerId s"
  by (simp_all add: addLog_def)

lemma map_hand_updateFirst [simp]:
  "map hand (updateFirst P (\<lambda>p. p\<lparr>isEliminated := True\<rparr>) ps) = map hand ps"
  by (induction ps) auto

lemma map_playerId_updateFirst [simp]:
  "map playerId (updateFirst P (\<lambda>p. p\<lparr>isEliminated := True\<rparr>) ps) = map playerId ps"
  by (induction ps) auto

lemma length_updateFirst [simp]: "length (updateFirst P f ps) = length ps"
  by (induction ps) auto

lemma findPlayer_Some:
  "findPlayer pid ps = Some p \<Longrightarrow> p \<in> set ps \<and> playerId p = pid"
  unfolding findPlayer_def by (auto simp: find_Some_iff)

lemma findPlayer_None: "findPlayer pid ps = None \<longleftrightarrow> pid \<notin> playerId ` set ps"
  unfolding findPlayer_def by (auto simp: find_None_iff)

lemma findPlayer_distinct:
  "distinct (map playerId ps) \<Longrightarrow> p \<in> set ps \<Longrightarrow> findPlayer (playerId p) ps = Some p"
  unfolding findPlayer_def
proof (induction ps)
  case Nil
  then show ?case by simp
next
  case (Cons q qs)
  then show ?case by (cases "playerId q = playerId p") (auto simp: image_iff)
qed

lemma nthTile_Some: "nthTile h i = Some t \<Longrightarrow> 0 \<le> i \<and> nat i < length h \<and> t = h ! nat i"
  by (auto simp: nthTile_def split: if_splits)

text \<open>With distinct identifiers the reveal touches the found player only, inside its hand.\<close>

lemma markRevealed_distinct:
  assumes "distinct (map playerId ps)" "findPlayer target ps = Some tp" "i < length (hand tp)"
  shows "markRevealed target i ps = Inr (map (\<lambda>p. if playerId p = target then revealAt i p else p) ps)"
proof -
  have "p = tp" if "p \<in> set ps" "playerId p = target" for p
    using findPlayer_distinct[OF assms(1) that(1)] that(2) assms(2) by simp
  with assms(3) show ?thesis by (auto simp: markRevealed_def)
qed

lemma markRevealed_Inr:
  "markRevealed target i ps = Inr qs \<Longrightarrow>
     qs = map (\<lambda>p. if playerId p = target then revealAt i p else p) ps"
  by (auto simp: markRevealed_def split: if_splits)

lemma findPlayer_map_reveal:
  "findPlayer target ps = Some tp \<Longrightarrow>
   findPlayer target (map (\<lambda>p. if playerId p = target then revealAt i p else p) ps) = Some (revealAt i tp)"
  unfolding findPlayer_def by (induction ps) (auto simp: revealAt_def)

lemma eliminateIfRevealed_Inr:
  "findPlayer target qs = Some u \<Longrightarrow>
   eliminateIfRevealed target qs =
     Inr (if list_all isRevealed (hand u) then Some (name u) else None,
          if list_all isRevealed (hand u)
          then updateFirst (\<lambda>p. playerId p = target) (\<lambda>p. p\<lparr>isEliminated := True\<rparr>) qs else qs)"
  by (simp add: eliminateIfRevealed_def)

lemma updateFirst_unique:
  "distinct (map k xs) \<Longrightarrow>
   updateFirst (\<lambda>x. k x = a) f xs = map (\<lambda>x. if k x = a then f x else x) xs"
proof (induction xs)
  case Nil
  then show ?case by simp
next
  case (Cons x xs)
  show ?case
  proof (cases "k x = a")
    case True
    with Cons.prems have "\<forall>y \<in> set xs. k y \<noteq> a" by (auto simp: image_iff)
    then have "map (\<lambda>x. if k x = a then f x else x) xs = xs"
      by (simp add: map_idI)
    with True show ?thesis by simp
  next
    case False
    with Cons show ?thesis by simp
  qed
qed

lemma playerId_revealAt [simp]: "playerId (revealAt i p) = playerId p"
  and isEliminated_revealAt [simp]: "isEliminated (revealAt i p) = isEliminated p"
  and name_revealAt [simp]: "name (revealAt i p) = name p"
  by (simp_all add: revealAt_def)

lemma correct_guess_players:
  assumes dist: "distinct (map playerId ps)"
    and tp: "findPlayer target ps = Some tp"
    and i: "i < length (hand tp)"
  shows "\<exists>qs e. markRevealed target i ps = Inr qs \<and>
           eliminateIfRevealed target qs = Inr (e, afterCorrectGuess target i ps)"
proof -
  let ?qs = "map (\<lambda>p. if playerId p = target then revealAt i p else p) ps"
  have uniq: "p = tp" if "p \<in> set ps" "playerId p = target" for p
    using findPlayer_distinct[OF dist that(1)] that(2) tp by simp
  have m: "markRevealed target i ps = Inr ?qs"
    by (rule markRevealed_distinct[OF dist tp i])
  have f: "findPlayer target ?qs = Some (revealAt i tp)"
    by (rule findPlayer_map_reveal[OF tp])
  have dq: "distinct (map playerId ?qs)"
    using dist by (simp add: comp_def if_distrib[of playerId] cong: if_cong)
  show ?thesis
  proof (cases "list_all isRevealed (hand (revealAt i tp))")
    case True
    have "updateFirst (\<lambda>p. playerId p = target) (\<lambda>p. p\<lparr>isEliminated := True\<rparr>) ?qs
            = map (\<lambda>p. if playerId p = target then p\<lparr>isEliminated := True\<rparr> else p) ?qs"
      by (rule updateFirst_unique[OF dq])
    also have "\<dots> = afterCorrectGuess target i ps"
      unfolding afterCorrectGuess_def using True uniq by (auto simp: comp_def)
    finally show ?thesis using m f True by (simp add: eliminateIfRevealed_Inr)
  next
    case False
    have "?qs = afterCorrectGuess target i ps"
      unfolding afterCorrectGuess_def using False uniq by (auto simp: comp_def)
    with m f False show ?thesis by (simp add: eliminateIfRevealed_Inr)
  qed
qed

lemma handleTileClick_valid:
  "validGuess s target idx \<Longrightarrow>
   handleTileClick s target idx tid =
     Inr (Some \<lparr>targetPlayerId = target, targetTileIndex = idx, targetTileId = tid\<rparr>)"
  by (auto simp: validGuess_def handleTileClick_def dest: findPlayer_Some
      split: option.splits)

lemma handleTileClick_Some:
  "handleTileClick s target idx tid = Inr (Some m) \<Longrightarrow>
   validGuess s target idx \<and> m = \<lparr>targetPlayerId = target, targetTileIndex = idx, targetTileId = tid\<rparr>"
  by (auto simp: validGuess_def handleTileClick_def dest: findPlayer_Some
      split: option.splits if_splits)

lemma guess_correct:
  assumes dist: "distinct (map playerId (players s))"
    and valid: "validGuess s target idx"
    and tile: "targetTile s target idx = Some t"
    and val: "tileValue t = v"
  shows "\<exists>l. guess target idx tid v s =
     Some (Inr (checkWinner (afterCorrectGuess target (nat idx) (players s))
                  (s\<lparr>players := afterCorrectGuess target (nat idx) (players s), phase := RESOLVE,
                     turnLog := l\<rparr>)))"
proof -
  from tile obtain tp where tp: "findPlayer target (players s) = Some tp"
    and nt: "nthTile (hand tp) idx = Some t"
    by (auto simp: targetTile_def split: option.splits)
  from nthTile_Some[OF nt] have i: "nat idx < length (hand tp)" by simp
  from correct_guess_players[OF dist tp i] obtain qs e where
    m: "markRevealed target (nat idx) (players s) = Inr qs" and
    el: "eliminateIfRevealed target qs = Inr (e, afterCorrectGuess target (nat idx) (players s))"
    by blast
  have "guess target idx tid v s =
     Some (Inr (checkWinner (afterCorrectGuess target (nat idx) (players s))
                  (s\<lparr>players := afterCorrectGuess target (nat idx) (players s), phase := RESOLVE,
                     turnLog := take 50 (CorrectItWas (isJoker t) (tileValue t) #
                        turnLog (case e of None \<Rightarrow> s | Some n \<Rightarrow> addLog (IsEliminated n) s))\<rparr>)))"
    using handleTileClick_valid[OF valid] tp nt val m el
    by (cases e) (simp_all add: guess_def submitGuess_def addLog_def)
  then show ?thesis by blast
qed

lemma guess_invalid:
  assumes "\<not> validGuess s target idx"
  shows "guess target idx tid v s = Some (Inr s) \<or> guess target idx tid v s = Some (Inl TypeError)"
proof (cases "handleTileClick s target idx tid")
  case (Inl e)
  then have "e = TypeError"
    by (auto simp: handleTileClick_def split: if_splits option.splits)
  with Inl show ?thesis by (simp add: guess_def)
next
  case (Inr m)
  with assms handleTileClick_Some[of s target idx tid] have "m = None"
    by (cases m) auto
  with Inr show ?thesis by (simp add: guess_def)
qed

lemma guess_wrong:
  assumes valid: "validGuess s target idx"
    and tile: "targetTile s target idx = Some t"
    and val: "tileValue t \<noteq> v"
  shows "guess target idx tid v s = endTurn False s"
proof -
  from tile obtain tp where tp: "findPlayer target (players s) = Some tp"
    and nt: "nthTile (hand tp) idx = Some t"
    by (auto simp: targetTile_def split: option.splits)
  show ?thesis
    using handleTileClick_valid[OF valid] tp nt val
    by (simp add: guess_def submitGuess_def)
qed

lemma validGuess_targetTile:
  "validGuess s target idx \<Longrightarrow> \<exists>t. targetTile s target idx = Some t \<and> \<not> isRevealed t"
  by (auto simp: validGuess_def targetTile_def split: option.splits)

text \<open>The three ways a guess command returns.\<close>

lemma guess_returns:
  assumes "distinct (map playerId (players s))" "guess target idx tid v s = Some (Inr s')"
  shows "s' = s \<or> endTurn False s = Some (Inr s') \<or>
     (validGuess s target idx \<and>
      (\<exists>l. s' = checkWinner (afterCorrectGuess target (nat idx) (players s))
                  (s\<lparr>players := afterCorrectGuess target (nat idx) (players s), phase := RESOLVE,
                     turnLog := l\<rparr>)))"
proof (cases "validGuess s target idx")
  case False
  from guess_invalid[OF False, of tid v] assms(2) show ?thesis by auto
next
  case True
  from validGuess_targetTile[OF True] obtain t where t: "targetTile s target idx = Some t" by blast
  show ?thesis
  proof (cases "tileValue t = v")
    case True
    from guess_correct[OF assms(1) \<open>validGuess s target idx\<close> t True, of tid] assms(2)
      \<open>validGuess s target idx\<close>
    show ?thesis by auto
  next
    case False
    from guess_wrong[OF \<open>validGuess s target idx\<close> t False, of tid] assms(2)
    show ?thesis by simp
  qed
qed

section \<open>The invariant is kept by every command\<close>

lemma sameSeats_refl: "sameSeats ps ps"
  by (simp add: sameSeats_def list_all2_same)

lemma sameSeats_ids: "sameSeats ps qs \<Longrightarrow> map playerId qs = map playerId ps"
  unfolding sameSeats_def by (induction ps qs rule: list_all2_induct) auto

lemma sameSeats_flags: "sameSeats ps qs \<Longrightarrow> map isEliminated qs = map isEliminated ps"
  unfolding sameSeats_def by (induction ps qs rule: list_all2_induct) auto

lemma sameSeats_length: "sameSeats ps qs \<Longrightarrow> length qs = length ps"
  unfolding sameSeats_def by (simp add: list_all2_lengthD)

lemma sameSeats_trans:
  assumes "sameSeats ps qs" "sameSeats qs rs"
  shows "sameSeats ps rs"
  using assms unfolding sameSeats_def
  by (auto simp: list_all2_conv_all_nth)

lemma length_active_flags:
  "map isEliminated qs = map isEliminated ps \<Longrightarrow>
   length (activePlayers qs) = length (activePlayers ps)"
proof -
  assume a: "map isEliminated qs = map isEliminated ps"
  have e: "activePlayers xs = filter (Not \<circ> isEliminated) xs" for xs
    by (simp add: activePlayers_def comp_def)
  have "length (activePlayers qs) = length (filter Not (map isEliminated qs))"
    unfolding e length_filter_map ..
  also have "\<dots> = length (filter Not (map isEliminated ps))"
    unfolding a ..
  also have "\<dots> = length (activePlayers ps)"
    unfolding e length_filter_map ..
  finally show ?thesis .
qed

lemma sameSeats_member:
  assumes "sameSeats ps qs" "q \<in> set qs"
  shows "\<exists>p \<in> set ps. playerId q = playerId p \<and> isEliminated q = isEliminated p \<and>
           (list_all isRevealed (hand q) \<longrightarrow> list_all isRevealed (hand p))"
proof -
  from assms(2) obtain i where i: "i < length qs" "q = qs ! i"
    by (auto simp: in_set_conv_nth)
  from assms(1) i have "i < length ps" and
    "playerId q = playerId (ps ! i) \<and> isEliminated q = isEliminated (ps ! i) \<and>
       (list_all isRevealed (hand q) \<longrightarrow> list_all isRevealed (hand (ps ! i)))"
    unfolding sameSeats_def by (auto simp: list_all2_conv_all_nth)
  then show ?thesis using nth_mem by blast
qed

lemma sameSeats_member':
  assumes "sameSeats ps qs" "p \<in> set ps"
  shows "\<exists>q \<in> set qs. playerId q = playerId p \<and> isEliminated q = isEliminated p"
proof -
  from assms(2) obtain i where i: "i < length ps" "p = ps ! i"
    by (auto simp: in_set_conv_nth)
  from assms(1) i have "i < length qs" and
    "playerId (qs ! i) = playerId p \<and> isEliminated (qs ! i) = isEliminated p"
    unfolding sameSeats_def by (auto simp: list_all2_conv_all_nth)
  then show ?thesis using nth_mem by blast
qed

text \<open>A list update or a map that only changes hands, keeping a hidden tile hidden.\<close>

lemma sameSeats_update:
  assumes "i < length ps" "list_all isRevealed h \<longrightarrow> list_all isRevealed (hand (ps ! i))"
  shows "sameSeats ps (ps[i := (ps ! i)\<lparr>hand := h\<rparr>])"
  using assms unfolding sameSeats_def
  by (auto simp: list_all2_conv_all_nth nth_list_update)

lemma sameSeats_map:
  assumes "\<And>p. p \<in> set ps \<Longrightarrow> playerId (f p) = playerId p \<and> isEliminated (f p) = isEliminated p \<and>
              (list_all isRevealed (hand (f p)) \<longrightarrow> list_all isRevealed (hand p))"
  shows "sameSeats ps (map f ps)"
  using assms unfolding sameSeats_def
  by (auto simp: list_all2_conv_all_nth)

lemma list_all_sortHand: "list_all P (sortHand ts) = list_all P ts"
  by (simp add: list_all_iff set_sortHand)

text \<open>The invariant carries over to a state with the same seats and the same winner.\<close>

lemma wellFormed_sameSeats:
  assumes wf: "wellFormed s"
    and seats: "sameSeats (players s) (players s')"
    and cur: "\<exists>p \<in> set (players s'). playerId p = currentTurnPlayerId s' \<and> \<not> isEliminated p"
    and win: "winnerId s' = winnerId s"
    and slot: "phase s' = DRAW \<longrightarrow> drawnTile s' = None"
  shows "wellFormed s'"
  unfolding wellFormed_def
proof (intro conjI)
  show "distinct (map playerId (players s'))"
    using wf sameSeats_ids[OF seats] by (simp add: wellFormed_def)
  show "\<exists>p \<in> set (players s'). playerId p = currentTurnPlayerId s' \<and> \<not> isEliminated p"
    by (rule cur)
  show "\<forall>p \<in> set (players s'). list_all isRevealed (hand p) \<longrightarrow> isEliminated p"
  proof (intro ballI impI)
    fix q assume "q \<in> set (players s')" "list_all isRevealed (hand q)"
    with sameSeats_member[OF seats] wf show "isEliminated q"
      unfolding wellFormed_def by metis
  qed
  show "(winnerId s' \<noteq> None) = (length (activePlayers (players s')) = 1)"
    using wf win length_active_flags[OF sameSeats_flags[OF seats]] by (simp add: wellFormed_def)
  show "phase s' = DRAW \<longrightarrow> drawnTile s' = None" by (rule slot)
qed

lemma wellFormed_sameSeats_cur:
  assumes wf: "wellFormed s"
    and seats: "sameSeats (players s) (players s')"
    and cur: "currentTurnPlayerId s' = currentTurnPlayerId s"
    and win: "winnerId s' = winnerId s"
    and slot: "phase s' = DRAW \<longrightarrow> drawnTile s' = None"
  shows "wellFormed s'"
proof (rule wellFormed_sameSeats[OF wf seats _ win slot])
  from wf obtain p where "p \<in> set (players s)" "playerId p = currentTurnPlayerId s" "\<not> isEliminated p"
    unfolding wellFormed_def by blast
  with sameSeats_member'[OF seats, of p] cur
  show "\<exists>p \<in> set (players s'). playerId p = currentTurnPlayerId s' \<and> \<not> isEliminated p"
    by auto
qed

lemma wellFormed_drawTile:
  assumes "wellFormed s"
  shows "wellFormed (drawTile r s)"
proof (rule wellFormed_sameSeats_cur[OF assms])
  show "sameSeats (players s) (players (drawTile r s))"
    by (simp add: drawTile_def addLog_def Let_def sameSeats_refl)
  show "phase (drawTile r s) = DRAW \<longrightarrow> drawnTile (drawTile r s) = None"
    using assms by (simp add: drawTile_def addLog_def Let_def wellFormed_def)
qed (simp_all add: drawTile_def addLog_def Let_def)

lemma wellFormed_continueTurn:
  assumes "wellFormed s"
  shows "wellFormed (continueTurn s)"
proof (rule wellFormed_sameSeats_cur[OF assms])
  show "phase (continueTurn s) = DRAW \<longrightarrow> drawnTile (continueTurn s) = None"
    using assms by (simp add: continueTurn_def wellFormed_def)
qed (simp_all add: continueTurn_def sameSeats_refl)

lemma mergeDrawn_sameSeats:
  assumes "mergeDrawn b s (findIndex (\<lambda>p. playerId p = currentTurnPlayerId s) (players s)) = Inr qs"
  shows "sameSeats (players s) qs"
proof (cases "drawnTile s")
  case None
  with assms show ?thesis by (simp add: mergeDrawn_def sameSeats_refl)
next
  case (Some d)
  with assms obtain i where
    i: "findIndex (\<lambda>p. playerId p = currentTurnPlayerId s) (players s) = Some i"
    by (auto simp: mergeDrawn_def split: option.splits)
  from findIndex_Some[OF i] have ilt: "i < length (players s)" by simp
  from assms Some i have "qs = (players s)[i := (players s ! i)
      \<lparr>hand := sortHand (hand (players s ! i) @ [if \<not> b then d\<lparr>isRevealed := True\<rparr> else d])\<rparr>]"
    by (simp add: mergeDrawn_def Let_def)
  then show ?thesis using sameSeats_update[OF ilt] by (simp add: list_all_sortHand)
qed

lemma nextPlayerIdx_returns:
  assumes "nextPlayerIdx ps cur = Some (Inr k)"
  shows "k < length ps \<and> \<not> isEliminated (ps ! k)"
proof -
  from assms have "ps \<noteq> []" and
    "skipEliminated ps ((case cur of None \<Rightarrow> 0 | Some i \<Rightarrow> i + 1) mod length ps) = Some (Inr k)"
    by (auto simp: nextPlayerIdx_def split: if_splits)
  from skip_returns[OF this(2)] show ?thesis by auto
qed

text \<open>What \<open>endTurn\<close> returns.\<close>

lemma endTurn_returns:
  assumes "endTurn b s = Some (Inr s')"
  shows "\<exists>qs k. mergeDrawn b s (findIndex (\<lambda>p. playerId p = currentTurnPlayerId s) (players s)) = Inr qs \<and>
           k < length qs \<and> \<not> isEliminated (qs ! k) \<and>
           s' = \<lparr>players = qs, currentTurnPlayerId = playerId (qs ! k), drawnTile = None,
                 pool = pool s, phase = DRAW, winnerId = winnerId s, turnLog = turnLog s,
                 moveNumber = moveNumber s + 1\<rparr>"
proof -
  let ?cur = "findIndex (\<lambda>p. playerId p = currentTurnPlayerId s) (players s)"
  from assms obtain qs where m: "mergeDrawn b s ?cur = Inr qs"
    by (auto simp: endTurn_def Let_def split: sum.splits)
  with assms obtain k where k: "nextPlayerIdx qs ?cur = Some (Inr k)"
    by (auto simp: endTurn_def Let_def split: sum.splits option.splits)
  from assms m k have "s' = \<lparr>players = qs, currentTurnPlayerId = playerId (qs ! k), drawnTile = None,
                 pool = pool s, phase = DRAW, winnerId = winnerId s, turnLog = turnLog s,
                 moveNumber = moveNumber s + 1\<rparr>"
    by (simp add: endTurn_def Let_def)
  with m nextPlayerIdx_returns[OF k] show ?thesis by blast
qed

lemma wellFormed_endTurn:
  assumes wf: "wellFormed s" and e: "endTurn b s = Some (Inr s')"
  shows "wellFormed s'"
proof -
  from endTurn_returns[OF e] obtain qs k where
    m: "mergeDrawn b s (findIndex (\<lambda>p. playerId p = currentTurnPlayerId s) (players s)) = Inr qs"
    and k: "k < length qs" "\<not> isEliminated (qs ! k)"
    and s': "s' = \<lparr>players = qs, currentTurnPlayerId = playerId (qs ! k), drawnTile = None,
                 pool = pool s, phase = DRAW, winnerId = winnerId s, turnLog = turnLog s,
                 moveNumber = moveNumber s + 1\<rparr>"
    by blast
  show ?thesis
  proof (rule wellFormed_sameSeats[OF wf])
    show "sameSeats (players s) (players s')"
      using mergeDrawn_sameSeats[OF m] s' by simp
    show "\<exists>p \<in> set (players s'). playerId p = currentTurnPlayerId s' \<and> \<not> isEliminated p"
      using k s' nth_mem[OF k(1)] by auto
  qed (simp_all add: s')
qed

lemma wellFormed_handleTimeOut:
  assumes wf: "wellFormed s" and e: "handleTimeOut r s = Some (Inr s')"
  shows "wellFormed s'"
  using assms wellFormed_endTurn[of s False s'] wellFormed_drawTile[of s r]
  by (auto simp: handleTimeOut_def split: if_splits)

text \<open>The three ways \<open>handleDrop\<close> ends: refused, the drawn joker moved, a joker of the hand moved.\<close>

lemma handleDrop_cases:
  "handleDrop d t s = s \<or>
   (\<exists>dr cp. drawnTile s = Some dr \<and> findPlayer (currentTurnPlayerId s) (players s) = Some cp \<and>
      tileId dr = d \<and> isJoker dr \<and> \<not> isPlaced dr \<and>
      handleDrop d t s =
        s\<lparr>drawnTile := Some (dr\<lparr>sortValue := newSortValueFor (hand cp) d t, isPlaced := True\<rparr>)\<rparr>) \<or>
   (\<exists>cp obj. findPlayer (currentTurnPlayerId s) (players s) = Some cp \<and>
      find (\<lambda>x. tileId x = d) (hand cp) = Some obj \<and> isJoker obj \<and> \<not> isPlaced obj \<and>
      handleDrop d t s =
        s\<lparr>players := map (\<lambda>p. if playerId p = playerId cp
                   then p\<lparr>hand := sortHand (map (\<lambda>x. if tileId x = d
                             then x\<lparr>sortValue := newSortValueFor (hand cp) d t, isPlaced := True\<rparr>
                             else x) (hand cp))\<rparr>
                   else p) (players s)\<rparr>)"
proof (cases "d = t")
  case True
  then show ?thesis by (simp add: handleDrop_def)
next
  case ne: False
  show ?thesis
  proof (cases "findPlayer (currentTurnPlayerId s) (players s)")
    case None
    with ne show ?thesis by (simp add: handleDrop_def)
  next
    case (Some cp)
    have inhand: ?thesis
      if nd: "(case drawnTile s of None \<Rightarrow> False | Some x \<Rightarrow> tileId x = d) = False"
    proof (cases "find (\<lambda>x. tileId x = d) (hand cp)")
      case None
      with ne Some nd show ?thesis by (simp add: handleDrop_def Let_def)
    next
      case obj: (Some obj)
      show ?thesis
      proof (cases "\<not> isJoker obj \<or> isPlaced obj")
        case True
        with ne Some nd obj show ?thesis by (simp add: handleDrop_def Let_def)
      next
        case False
        with ne Some nd obj have "handleDrop d t s =
          s\<lparr>players := map (\<lambda>p. if playerId p = playerId cp
                   then p\<lparr>hand := sortHand (map (\<lambda>x. if tileId x = d
                             then x\<lparr>sortValue := newSortValueFor (hand cp) d t, isPlaced := True\<rparr>
                             else x) (hand cp))\<rparr>
                   else p) (players s)\<rparr>"
          by (simp add: handleDrop_def Let_def)
        with Some obj False show ?thesis by blast
      qed
    qed
    show ?thesis
    proof (cases "drawnTile s")
      case None
      then show ?thesis by (intro inhand) simp
    next
      case dr: (Some dr)
      show ?thesis
      proof (cases "tileId dr = d")
        case False
        with dr show ?thesis by (intro inhand) simp
      next
        case True
        show ?thesis
        proof (cases "\<not> isJoker dr \<or> isPlaced dr")
          case True
          with ne Some dr \<open>tileId dr = d\<close> show ?thesis by (simp add: handleDrop_def Let_def)
        next
          case False
          with ne Some dr \<open>tileId dr = d\<close> have "handleDrop d t s =
            s\<lparr>drawnTile := Some (dr\<lparr>sortValue := newSortValueFor (hand cp) d t, isPlaced := True\<rparr>)\<rparr>"
            by (simp add: handleDrop_def Let_def)
          with Some dr \<open>tileId dr = d\<close> False show ?thesis by blast
        qed
      qed
    qed
  qed
qed

lemma handleDrop_sameSeats:
  assumes "distinct (map playerId (players s))"
  shows "sameSeats (players s) (players (handleDrop d t s))"
proof -
  from handleDrop_cases[of d t s] consider
    (same) "players (handleDrop d t s) = players s"
  | (inhand) cp where "findPlayer (currentTurnPlayerId s) (players s) = Some cp"
      "players (handleDrop d t s) = map (\<lambda>p. if playerId p = playerId cp
                   then p\<lparr>hand := sortHand (map (\<lambda>x. if tileId x = d
                             then x\<lparr>sortValue := newSortValueFor (hand cp) d t, isPlaced := True\<rparr>
                             else x) (hand cp))\<rparr>
                   else p) (players s)"
  proof (elim disjE exE conjE, goal_cases)
    case 1
    then show ?case by simp
  next
    case (2 dr cp)
    then show ?case by simp
  next
    case (3 cp obj)
    from 3(2)[OF 3(3)] 3(7) show ?case by simp
  qed
  then show ?thesis
  proof cases
    case same
    then show ?thesis by (simp add: sameSeats_refl)
  next
    case (inhand cp)
    let ?v = "newSortValueFor (hand cp) d t"
    let ?nh = "map (\<lambda>x. if tileId x = d then x\<lparr>sortValue := ?v, isPlaced := True\<rparr> else x) (hand cp)"
    have uniq: "p = cp" if "p \<in> set (players s)" "playerId p = playerId cp" for p
      using findPlayer_distinct[OF assms that(1)] that(2) inhand(1) findPlayer_Some[OF inhand(1)]
      by simp
    have rev: "list_all isRevealed ?nh = list_all isRevealed (hand cp)"
      unfolding list.pred_map
      by (rule arg_cong[of _ _ "\<lambda>P. list_all P (hand cp)"]) (auto simp: fun_eq_iff)
    show ?thesis
      unfolding inhand(2)
    proof (rule sameSeats_map)
      fix p assume p: "p \<in> set (players s)"
      let ?q = "if playerId p = playerId cp then p\<lparr>hand := sortHand ?nh\<rparr> else p"
      show "playerId ?q = playerId p \<and> isEliminated ?q = isEliminated p \<and>
            (list_all isRevealed (hand ?q) \<longrightarrow> list_all isRevealed (hand p))"
      proof (cases "playerId p = playerId cp")
        case True
        with uniq[OF p] have "p = cp" by simp
        with True rev show ?thesis by (simp add: list_all_sortHand)
      next
        case False
        then show ?thesis by simp
      qed
    qed
  qed
qed

lemma handleDrop_fields:
  "currentTurnPlayerId (handleDrop d t s) = currentTurnPlayerId s"
  "winnerId (handleDrop d t s) = winnerId s"
  "phase (handleDrop d t s) = phase s"
  "pool (handleDrop d t s) = pool s"
  "drawnTile s = None \<Longrightarrow> drawnTile (handleDrop d t s) = None"
  using handleDrop_cases[of d t s] by auto

lemma wellFormed_handleDrop:
  assumes wf: "wellFormed s"
  shows "wellFormed (handleDrop d t s)"
proof (rule wellFormed_sameSeats_cur[OF wf])
  show "sameSeats (players s) (players (handleDrop d t s))"
    using wf by (intro handleDrop_sameSeats) (simp add: wellFormed_def)
  show "phase (handleDrop d t s) = DRAW \<longrightarrow> drawnTile (handleDrop d t s) = None"
    using wf handleDrop_fields(3)[of d t s] handleDrop_fields(5)[of s d t] by (simp add: wellFormed_def)
qed (simp_all add: handleDrop_fields)

lemma map_playerId_afterCorrectGuess [simp]:
  "map playerId (afterCorrectGuess target i ps) = map playerId ps"
  by (induction ps) (simp_all add: afterCorrectGuess_def)

lemma length_afterCorrectGuess [simp]: "length (afterCorrectGuess target i ps) = length ps"
  by (simp add: afterCorrectGuess_def)

lemma afterCorrectGuess_others:
  "p \<in> set ps \<Longrightarrow> playerId p \<noteq> target \<Longrightarrow> p \<in> set (afterCorrectGuess target i ps)"
  by (force simp: afterCorrectGuess_def image_iff)

lemma afterCorrectGuess_revealed:
  assumes "\<forall>p \<in> set ps. list_all isRevealed (hand p) \<longrightarrow> isEliminated p"
    and "q \<in> set (afterCorrectGuess target i ps)" "list_all isRevealed (hand q)"
  shows "isEliminated q"
proof -
  from assms(2) obtain p where p: "p \<in> set ps" and
    q: "q = (if playerId p = target
              then (revealAt i p)\<lparr>isEliminated := isEliminated p \<or> list_all isRevealed (hand (revealAt i p))\<rparr>
              else p)"
    by (auto simp: afterCorrectGuess_def)
  show ?thesis
  proof (cases "playerId p = target")
    case True
    with q assms(3) show ?thesis by simp
  next
    case False
    with q assms(1,3) p show ?thesis by simp
  qed
qed

text \<open>One player left means that any two players still in the game are the same.\<close>

lemma one_active_unique:
  assumes "length (activePlayers ps) = 1" "p \<in> set ps" "\<not> isEliminated p"
    "q \<in> set ps" "\<not> isEliminated q"
  shows "p = q"
proof -
  from assms(1) obtain w where w: "activePlayers ps = [w]"
    by (cases "activePlayers ps") auto
  have "p \<in> set (activePlayers ps)" "q \<in> set (activePlayers ps)"
    using assms(2-5) by (simp_all add: activePlayers_def)
  then show ?thesis unfolding w by simp
qed

text \<open>
  The state after a correct guess, of a human or of a bot: the players are those after
  the guess, up to hands that changed as in a merge, the turn holder is a player still
  in the game, and \<open>checkWinner\<close> has decided on the winner.
\<close>

lemma wellFormed_after_guess:
  assumes wf: "wellFormed s"
    and tp: "tp \<in> set (players s)" "playerId tp = target" "\<not> isEliminated tp"
      "target \<noteq> currentTurnPlayerId s"
    and seats: "sameSeats (afterCorrectGuess target i (players s)) (players s')"
    and cur: "\<exists>p \<in> set (players s'). playerId p = currentTurnPlayerId s' \<and> \<not> isEliminated p"
    and win: "winnerId s' = (if length (activePlayers (players s')) = 1 then Some w else winnerId s)"
    and slot: "phase s' = DRAW \<longrightarrow> drawnTile s' = None"
  shows "wellFormed s'"
  unfolding wellFormed_def
proof (intro conjI)
  let ?qs = "afterCorrectGuess target i (players s)"
  show "distinct (map playerId (players s'))"
    using wf sameSeats_ids[OF seats] by (simp add: wellFormed_def)
  show "\<exists>p \<in> set (players s'). playerId p = currentTurnPlayerId s' \<and> \<not> isEliminated p"
    by (rule cur)
  show "\<forall>p \<in> set (players s'). list_all isRevealed (hand p) \<longrightarrow> isEliminated p"
  proof (intro ballI impI)
    fix q assume q: "q \<in> set (players s')" "list_all isRevealed (hand q)"
    from sameSeats_member[OF seats q(1)] q(2) obtain p where
      p: "p \<in> set ?qs" "isEliminated q = isEliminated p" "list_all isRevealed (hand p)"
      by auto
    from wf have "\<forall>p \<in> set (players s). list_all isRevealed (hand p) \<longrightarrow> isEliminated p"
      by (simp add: wellFormed_def)
    from afterCorrectGuess_revealed[OF this p(1) p(3)] p(2) show "isEliminated q" by simp
  qed
  from wf obtain c where c: "c \<in> set (players s)" "playerId c = currentTurnPlayerId s"
    "\<not> isEliminated c"
    unfolding wellFormed_def by blast
  have "length (activePlayers (players s)) \<noteq> 1"
    using one_active_unique[OF _ c(1) c(3) tp(1) tp(3)] c(2) tp(2,4) by auto
  with wf have "winnerId s = None" by (simp add: wellFormed_def)
  with win show "(winnerId s' \<noteq> None) = (length (activePlayers (players s')) = 1)" by simp
  show "phase s' = DRAW \<longrightarrow> drawnTile s' = None" by (rule slot)
qed

lemma validGuess_target:
  assumes "validGuess s target idx"
  shows "\<exists>tp. findPlayer target (players s) = Some tp \<and> tp \<in> set (players s) \<and> playerId tp = target \<and>
           \<not> isEliminated tp \<and> target \<noteq> currentTurnPlayerId s"
  using assms by (auto simp: validGuess_def dest: findPlayer_Some split: option.splits)

lemma wellFormed_guess:
  assumes wf: "wellFormed s" and g: "guess target idx tid v s = Some (Inr s')"
  shows "wellFormed s'"
proof -
  have dist: "distinct (map playerId (players s))" using wf by (simp add: wellFormed_def)
  let ?qs = "afterCorrectGuess target (nat idx) (players s)"
  from guess_returns[OF dist g] consider
    (same) "s' = s" | (wrong) "endTurn False s = Some (Inr s')"
    | (correct) l where "validGuess s target idx"
        "s' = checkWinner ?qs (s\<lparr>players := ?qs, phase := RESOLVE, turnLog := l\<rparr>)"
    by blast
  then show ?thesis
  proof cases
    case same
    with wf show ?thesis by simp
  next
    case wrong
    with wf show ?thesis by (rule wellFormed_endTurn)
  next
    case correct
    from validGuess_target[OF correct(1)] obtain tp where
      tp: "tp \<in> set (players s)" "playerId tp = target" "\<not> isEliminated tp"
        "target \<noteq> currentTurnPlayerId s"
      by blast
    from wf obtain c where c: "c \<in> set (players s)" "playerId c = currentTurnPlayerId s"
      "\<not> isEliminated c"
      unfolding wellFormed_def by blast
    show ?thesis
    proof (rule wellFormed_after_guess[OF wf tp, of "nat idx" s' "playerId (hd (activePlayers ?qs))"])
      show "sameSeats ?qs (players s')" by (simp add: correct(2) sameSeats_refl)
      show "\<exists>p \<in> set (players s'). playerId p = currentTurnPlayerId s' \<and> \<not> isEliminated p"
        using afterCorrectGuess_others[OF c(1), of target "nat idx"] c(2,3) tp(4)
        by (auto simp: correct(2))
      show "winnerId s' = (if length (activePlayers (players s')) = 1
                           then Some (playerId (hd (activePlayers ?qs))) else winnerId s)"
        by (simp add: correct(2) checkWinner_winnerId activePlayers_def)
      show "phase s' = DRAW \<longrightarrow> drawnTile s' = None"
        by (simp add: correct(2) checkWinner_phase)
    qed
  qed
qed

lemma pick_Some:
  assumes "pick r xs = Some x"
  shows "x \<in> set xs"
proof -
  let ?k = "\<lfloor>r * real (length xs)\<rfloor>"
  from assms have k: "0 \<le> ?k" "?k < int (length xs)" and x: "x = xs ! nat ?k"
    by (auto simp: pick_def Let_def split: if_splits)
  from k have "nat ?k < length xs" by linarith
  with x show ?thesis by simp
qed

lemma botMergeDrawn_sameSeats:
  assumes "botMergeDrawn s ps = Inr qs"
  shows "sameSeats ps qs"
proof (cases "drawnTile s")
  case None
  with assms show ?thesis by (simp add: botMergeDrawn_def sameSeats_refl)
next
  case (Some d)
  with assms obtain b where
    b: "findIndex (\<lambda>p. playerId p = currentTurnPlayerId s) ps = Some b"
    by (auto simp: botMergeDrawn_def split: option.splits)
  from findIndex_Some[OF b] have blt: "b < length ps" by simp
  from assms Some b have "qs = ps[b := (ps ! b)\<lparr>hand := sortHand (hand (ps ! b) @ [d])\<rparr>]"
    by (simp add: botMergeDrawn_def)
  then show ?thesis using sameSeats_update[OF blt] by (simp add: list_all_sortHand)
qed

lemma getNextPlayerId_returns:
  assumes "getNextPlayerId ps c = Some (Inr n)"
  shows "\<exists>k. nextPlayerIdx ps (findIndex (\<lambda>p. playerId p = c) ps) = Some (Inr k) \<and>
             k < length ps \<and> \<not> isEliminated (ps ! k) \<and> n = playerId (ps ! k)"
proof -
  from assms obtain k where
    k: "nextPlayerIdx ps (findIndex (\<lambda>p. playerId p = c) ps) = Some (Inr k)" "n = playerId (ps ! k)"
    by (auto simp: getNextPlayerId_def split: option.splits sum.splits)
  with nextPlayerIdx_returns[OF k(1)] show ?thesis by blast
qed

text \<open>What the bot's correct guess returns.\<close>

lemma botCorrect_returns:
  assumes dist: "distinct (map playerId (players s))"
    and t: "target \<in> set (players s)" "i < length (hand target)"
    and b: "botCorrect s target i = Some (Inr s')"
  shows "\<exists>qs k. botMergeDrawn s (afterCorrectGuess (playerId target) i (players s)) = Inr qs \<and>
           nextPlayerIdx qs (findIndex (\<lambda>p. playerId p = currentTurnPlayerId s) qs) = Some (Inr k) \<and>
           k < length qs \<and> \<not> isEliminated (qs ! k) \<and>
           s' = checkWinner qs ((addLog BotCorrect s)\<lparr>players := qs, phase := DRAW,
                  currentTurnPlayerId := playerId (qs ! k), drawnTile := None\<rparr>)"
proof -
  let ?ps1 = "afterCorrectGuess (playerId target) i (players s)"
  have f: "findPlayer (playerId target) (players s) = Some target"
    by (rule findPlayer_distinct[OF dist t(1)])
  from correct_guess_players[OF dist f t(2)] obtain qs0 e where
    m: "markRevealed (playerId target) i (players s) = Inr qs0" and
    el: "eliminateIfRevealed (playerId target) qs0 = Inr (e, ?ps1)"
    by blast
  from b m el obtain qs where qs: "botMergeDrawn s ?ps1 = Inr qs"
    by (auto simp: botCorrect_def split: sum.splits)
  with b m el obtain n where n: "getNextPlayerId qs (currentTurnPlayerId s) = Some (Inr n)"
    by (auto simp: botCorrect_def split: sum.splits option.splits)
  from getNextPlayerId_returns[OF n] obtain k where
    k: "nextPlayerIdx qs (findIndex (\<lambda>p. playerId p = currentTurnPlayerId s) qs) = Some (Inr k)"
       "k < length qs" "\<not> isEliminated (qs ! k)" "n = playerId (qs ! k)"
    by blast
  from b m el qs n k(4) have
    "s' = checkWinner qs ((addLog BotCorrect s)\<lparr>players := qs, phase := DRAW,
                  currentTurnPlayerId := playerId (qs ! k), drawnTile := None\<rparr>)"
    by (simp add: botCorrect_def)
  with qs k show ?thesis by blast
qed

text \<open>The ways \<open>executeBotMove\<close> returns.\<close>

lemma hiddenTiles_member:
  "(t, i) \<in> set (hiddenTiles target) \<Longrightarrow>
     i < length (hand target) \<and> hand target ! i = t \<and> \<not> isRevealed t"
  by (auto simp: hiddenTiles_def set_zip)

lemma opponents_member:
  "p \<in> set (opponents s) \<Longrightarrow>
     p \<in> set (players s) \<and> playerId p \<noteq> currentTurnPlayerId s \<and> \<not> isEliminated p"
  by (simp add: opponents_def)

lemma executeBotMove_returns:
  assumes "executeBotMove jokers rD rT rI rV s = Some (Inr s')"
  shows "s' = drawTile rD s \<or> s' = s \<or> (\<exists>w. endTurn w s = Some (Inr s')) \<or>
     (\<exists>target t i. phase s = GUESS \<and> target \<in> set (players s) \<and>
        playerId target \<noteq> currentTurnPlayerId s \<and> \<not> isEliminated target \<and>
        i < length (hand target) \<and> hand target ! i = t \<and> \<not> isRevealed t \<and>
        pick rV (possibleValues jokers) = Some (tileValue t) \<and>
        botCorrect s target i = Some (Inr s'))"
proof (cases "phase s = GUESS")
  case False
  with assms show ?thesis
    by (auto simp: executeBotMove_def split: if_splits)
next
  case True
  show ?thesis
  proof (cases "opponents s = []")
    case True
    with assms \<open>phase s = GUESS\<close> show ?thesis by (simp add: executeBotMove_def)
  next
    case opp: False
    with assms \<open>phase s = GUESS\<close> obtain target where target: "pick rT (opponents s) = Some target"
      by (auto simp: executeBotMove_def split: option.splits)
    from opponents_member[OF pick_Some[OF target]] have tin: "target \<in> set (players s)"
      "playerId target \<noteq> currentTurnPlayerId s" "\<not> isEliminated target" by auto
    show ?thesis
    proof (cases "hiddenTiles target = []")
      case True
      with assms \<open>phase s = GUESS\<close> opp target show ?thesis by (simp add: executeBotMove_def)
    next
      case hid: False
      with assms \<open>phase s = GUESS\<close> opp target obtain t i where
        ti: "pick rI (hiddenTiles target) = Some (t, i)"
        by (auto simp: executeBotMove_def split: option.splits)
      from hiddenTiles_member[OF pick_Some[OF ti]]
      have i: "i < length (hand target)" "hand target ! i = t" "\<not> isRevealed t" by auto
      from assms \<open>phase s = GUESS\<close> opp target hid ti
      have "(pick rV (possibleValues jokers) = Some (tileValue t) \<and> botCorrect s target i = Some (Inr s')) \<or>
            endTurn False s = Some (Inr s')"
        by (auto simp: executeBotMove_def split: if_splits)
      with \<open>phase s = GUESS\<close> tin i show ?thesis by blast
    qed
  qed
qed

lemma wellFormed_executeBotMove:
  assumes wf: "wellFormed s" and e: "executeBotMove jokers rD rT rI rV s = Some (Inr s')"
  shows "wellFormed s'"
proof -
  have dist: "distinct (map playerId (players s))" using wf by (simp add: wellFormed_def)
  from executeBotMove_returns[OF e] consider
    (draw) "s' = drawTile rD s" | (same) "s' = s" | (endTurn) w where "endTurn w s = Some (Inr s')"
    | (correct) target i where "target \<in> set (players s)"
        "playerId target \<noteq> currentTurnPlayerId s" "\<not> isEliminated target"
        "i < length (hand target)" "botCorrect s target i = Some (Inr s')"
    by blast
  then show ?thesis
  proof cases
    case draw
    with wf show ?thesis by (simp add: wellFormed_drawTile)
  next
    case same
    with wf show ?thesis by simp
  next
    case endTurn
    with wf show ?thesis by (rule wellFormed_endTurn)
  next
    case correct
    let ?ps1 = "afterCorrectGuess (playerId target) i (players s)"
    from botCorrect_returns[OF dist correct(1,4,5)] obtain qs k where
      qs: "botMergeDrawn s ?ps1 = Inr qs" and k: "k < length qs" "\<not> isEliminated (qs ! k)" and
      s': "s' = checkWinner qs ((addLog BotCorrect s)\<lparr>players := qs, phase := DRAW,
                  currentTurnPlayerId := playerId (qs ! k), drawnTile := None\<rparr>)"
      by blast
    show ?thesis
    proof (rule wellFormed_after_guess[OF wf correct(1) refl correct(3) correct(2),
            of i s' "playerId (hd (activePlayers qs))"])
      show "sameSeats ?ps1 (players s')"
        using botMergeDrawn_sameSeats[OF qs] by (simp add: s')
      show "\<exists>p \<in> set (players s'). playerId p = currentTurnPlayerId s' \<and> \<not> isEliminated p"
        using k nth_mem[OF k(1)] by (auto simp: s')
      show "winnerId s' = (if length (activePlayers (players s')) = 1
                           then Some (playerId (hd (activePlayers qs))) else winnerId s)"
        by (simp add: s' checkWinner_winnerId activePlayers_def)
      show "phase s' = DRAW \<longrightarrow> drawnTile s' = None"
        by (simp add: s')
    qed
  qed
qed

lemma wellFormed_step:
  assumes "wellFormed s" "step s s'"
  shows "wellFormed s'"
  using assms(2,1)
  by (induction rule: step.induct)
     (auto intro: wellFormed_drawTile wellFormed_guess wellFormed_continueTurn wellFormed_endTurn
        wellFormed_handleDrop wellFormed_executeBotMove wellFormed_handleTimeOut)

lemma mset_shuffleFrom:
  assumes "\<forall>i. 0 \<le> rnd i \<and> rnd i < 1"
  shows "n < length xs \<Longrightarrow> mset (shuffleFrom rnd n xs) = mset xs"
proof (induction n arbitrary: xs)
  case 0
  then show ?case by simp
next
  case (Suc i)
  let ?j = "nat \<lfloor>rnd (Suc i) * real (Suc i + 1)\<rfloor>"
  from assms have r: "0 \<le> rnd (Suc i)" "rnd (Suc i) < 1" by auto
  have "rnd (Suc i) * real (Suc i + 1) < real (Suc i + 1)"
    using r(2) by (simp add: mult_less_cancel_right1)
  then have "\<lfloor>rnd (Suc i) * real (Suc i + 1)\<rfloor> < int (Suc i + 1)"
    by (simp add: floor_less_iff)
  then have "?j \<le> Suc i" by linarith
  with Suc.prems have j: "?j < length xs" by simp
  have sw: "mset (xs[Suc i := xs ! ?j, ?j := xs ! Suc i]) = mset xs"
    using mset_swap[OF j Suc.prems] .
  have "mset (shuffleFrom rnd i (xs[Suc i := xs ! ?j, ?j := xs ! Suc i]))
          = mset (xs[Suc i := xs ! ?j, ?j := xs ! Suc i])"
    using Suc.prems by (intro Suc.IH) simp
  with sw show ?case by (simp add: Let_def)
qed

lemma mset_shuffle:
  assumes "\<forall>i. 0 \<le> rnd i \<and> rnd i < 1"
  shows "mset (shuffle rnd xs) = mset xs"
proof (cases xs)
  case Nil
  then show ?thesis by (simp add: shuffle_def)
next
  case (Cons a list)
  then have "length xs - 1 < length xs" by simp
  from mset_shuffleFrom[OF assms this] show ?thesis by (simp add: shuffle_def)
qed

lemma length_createInitialTiles:
  "length (createInitialTiles b) = (if b then 26 else 24)"
  by (simp add: createInitialTiles_def TOTAL_NUMBERS_def length_concat comp_def sum_list_triv)

lemma createInitialTiles_hidden:
  "t \<in> set (createInitialTiles b) \<Longrightarrow> \<not> isRevealed t"
  by (auto simp: createInitialTiles_def numberTile_def jokerTile_def split: if_splits)

text \<open>The dealing loop: seats numbered in order, nobody eliminated, full hands of hidden tiles.\<close>

lemma dealPlayers_props:
  assumes "dealPlayers k jr details i n pl = Inr (ps, rest)"
    and "\<forall>t \<in> set pl. \<not> isRevealed t" and "n * k \<le> length pl" and "0 < k"
  shows "map playerId ps = [i..<i + n] \<and> (\<forall>p \<in> set ps. \<not> isEliminated p) \<and>
         (\<forall>p \<in> set ps. \<not> list_all isRevealed (hand p))"
  using assms
proof (induction n arbitrary: i pl ps rest)
  case 0
  then show ?case by simp
next
  case (Suc n)
  from Suc.prems(1) obtain ps' where
    rec: "dealPlayers k jr details (Suc i) n (drop k pl) = Inr (ps', rest)"
    and ps: "ps = \<lparr>playerId = i, name = setupName (details ! i), isBot = setupIsBot (details ! i),
        hand = sortHand ((if setupIsBot (details ! i)
                 then map (\<lambda>t. if isJoker t then t\<lparr>sortValue := jr (tileId t) * 12\<rparr> else t)
                 else (\<lambda>h. h)) (map (\<lambda>t. t\<lparr>ownerId := Some i\<rparr>) (take k pl))),
        isEliminated = False, avatar = setupAvatar (details ! i)\<rparr> # ps'"
    by (auto simp: Let_def split: if_splits sum.splits)
  have "\<forall>t \<in> set (drop k pl). \<not> isRevealed t"
    using Suc.prems(2) by (meson in_set_dropD)
  moreover have "n * k \<le> length (drop k pl)" using Suc.prems(3) by simp
  ultimately have IH: "map playerId ps' = [Suc i..<Suc i + n] \<and> (\<forall>p \<in> set ps'. \<not> isEliminated p) \<and>
         (\<forall>p \<in> set ps'. \<not> list_all isRevealed (hand p))"
    using Suc.IH[OF rec] Suc.prems(4) by simp
  let ?h = "(if setupIsBot (details ! i)
                 then map (\<lambda>t. if isJoker t then t\<lparr>sortValue := jr (tileId t) * 12\<rparr> else t)
                 else (\<lambda>h. h)) (map (\<lambda>t. t\<lparr>ownerId := Some i\<rparr>) (take k pl))"
  have "take k pl \<noteq> []" using Suc.prems(3,4) by (cases pl) auto
  then obtain t0 where t0: "t0 \<in> set (take k pl)" by (cases "take k pl") auto
  then have "\<not> isRevealed t0" using Suc.prems(2) by (meson in_set_takeD)
  have "\<exists>t \<in> set ?h. \<not> isRevealed t"
  proof (cases "setupIsBot (details ! i)")
    case True
    let ?t = "(\<lambda>t. if isJoker t then t\<lparr>sortValue := jr (tileId t) * 12\<rparr> else t) (t0\<lparr>ownerId := Some i\<rparr>)"
    have "?t \<in> set ?h" using True t0 by (simp add: image_iff) blast
    moreover have "\<not> isRevealed ?t" using \<open>\<not> isRevealed t0\<close> by simp
    ultimately show ?thesis by blast
  next
    case False
    have "t0\<lparr>ownerId := Some i\<rparr> \<in> set ?h" using False t0 by simp
    moreover have "\<not> isRevealed (t0\<lparr>ownerId := Some i\<rparr>)" using \<open>\<not> isRevealed t0\<close> by simp
    ultimately show ?thesis by blast
  qed
  then have "\<not> list_all isRevealed (sortHand ?h)"
    unfolding list_all_iff set_sortHand by blast
  with IH ps show ?case by (simp add: upt_rec[of i])
qed

lemma wellFormed_startGame:
  assumes v: "validSetup c" and r: "\<forall>i. 0 \<le> rnd i \<and> rnd i < 1"
    and st: "startGame c rnd jr = Inr s"
  shows "wellFormed s"
proof -
  let ?deck = "shuffle rnd (createInitialTiles (includeJokers c))"
  let ?k = "if playerCount c = 4 then 3 else 4 :: nat"
  from st obtain ps rest p0 ps' where
    d: "dealPlayers ?k jr (playerDetails c) 0 (playerCount c) ?deck = Inr (ps, rest)"
    and ps: "ps = p0 # ps'"
    and s: "s = \<lparr>players = ps, currentTurnPlayerId = playerId p0, drawnTile = None,
                 pool = rest, phase = DRAW, winnerId = None,
                 turnLog = [GameStarted], moveNumber = 1\<rparr>"
    by (auto simp: startGame_def Let_def split: sum.splits list.splits)
  have m: "mset ?deck = mset (createInitialTiles (includeJokers c))"
    by (rule mset_shuffle[OF r])
  then have "set ?deck = set (createInitialTiles (includeJokers c))"
    by (rule mset_eq_setD)
  then have hid: "\<forall>t \<in> set ?deck. \<not> isRevealed t"
    using createInitialTiles_hidden by blast
  have "length ?deck = length (createInitialTiles (includeJokers c))"
    using m by (rule mset_eq_length)
  then have len: "24 \<le> length ?deck" by (simp add: length_createInitialTiles)
  have "playerCount c * ?k \<le> 16" using v unfolding validSetup_def
    by (cases "playerCount c = 4") auto
  with len have enough: "playerCount c * ?k \<le> length ?deck" by linarith
  from dealPlayers_props[OF d hid enough] have
    ids: "map playerId ps = [0..<playerCount c]" and
    act: "\<forall>p \<in> set ps. \<not> isEliminated p" and
    hidden: "\<forall>p \<in> set ps. \<not> list_all isRevealed (hand p)"
    by auto
  have "distinct (map playerId ps)" unfolding ids by simp
  moreover have "activePlayers ps = ps" using act by (simp add: activePlayers_def)
  moreover have "length ps = playerCount c" using ids by (metis length_map length_upt minus_nat.diff_0)
  moreover have "2 \<le> playerCount c" using v by (simp add: validSetup_def)
  ultimately show ?thesis
    using act hidden ps unfolding wellFormed_def s by auto
qed

lemma reachable_wellFormed: "reachable s \<Longrightarrow> wellFormed s"
  by (induction rule: reachable.induct) (auto intro: wellFormed_startGame wellFormed_step)



lemma findIndex_map: "findIndex (\<lambda>p. f p = c) ps = findIndex (\<lambda>x. x = c) (map f ps)"
  by (induction ps) auto

lemma findIndex_same_ids:
  "map playerId qs = map playerId ps \<Longrightarrow>
   findIndex (\<lambda>p. playerId p = c) qs = findIndex (\<lambda>p. playerId p = c) ps"
  by (simp add: findIndex_map[of playerId])

lemma botMergeDrawn_botMerged:
  "findIndex (\<lambda>p. playerId p = currentTurnPlayerId s) ps = Some b \<Longrightarrow>
   botMergeDrawn s ps = Inr (botMerged s b ps)"
  by (simp add: botMergeDrawn_def botMerged_def split: option.splits)

text \<open>What the bot's correct guess returns when the bot sits at seat \<open>b\<close> and is in the game.\<close>

lemma botCorrect_result:
  assumes dist: "distinct (map playerId (players s))"
    and t: "bt \<in> set (players s)" "playerId bt \<noteq> currentTurnPlayerId s" "i < length (hand bt)"
    and b: "findIndex (\<lambda>p. playerId p = currentTurnPlayerId s) (players s) = Some b"
      "\<not> isEliminated (players s ! b)"
  shows "\<exists>k. firstActiveAfter (botMerged s b (afterCorrectGuess (playerId bt) i (players s))) b k \<and>
     botCorrect s bt i = Some (Inr (checkWinner
        (botMerged s b (afterCorrectGuess (playerId bt) i (players s)))
        ((addLog BotCorrect s)\<lparr>players := botMerged s b (afterCorrectGuess (playerId bt) i (players s)),
            phase := DRAW,
            currentTurnPlayerId := playerId (botMerged s b (afterCorrectGuess (playerId bt) i (players s))
               ! ((b + k) mod length (players s))),
            drawnTile := None\<rparr>)))"
proof -
  let ?c = "currentTurnPlayerId s"
  let ?ps1 = "afterCorrectGuess (playerId bt) i (players s)"
  let ?ps2 = "botMerged s b ?ps1"
  from findIndex_Some[OF b(1)] have blt: "b < length (players s)" and
    bid: "playerId (players s ! b) = ?c" by auto
  have f1: "findIndex (\<lambda>p. playerId p = ?c) ?ps1 = Some b"
    using b(1) findIndex_same_ids[of ?ps1 "players s" ?c] by simp
  have m: "botMergeDrawn s ?ps1 = Inr ?ps2" by (rule botMergeDrawn_botMerged[OF f1])
  have seats: "sameSeats ?ps1 ?ps2" by (rule botMergeDrawn_sameSeats[OF m])
  have len: "length ?ps2 = length (players s)" using sameSeats_length[OF seats] by simp
  have f2: "findIndex (\<lambda>p. playerId p = ?c) ?ps2 = Some b"
    using f1 findIndex_same_ids[OF sameSeats_ids[OF seats], of ?c] by simp
  have "?ps1 ! b = players s ! b"
    using blt bid t(2) by (simp add: afterCorrectGuess_def)
  then have "\<not> isEliminated (?ps1 ! b)" using b(2) by simp
  moreover have "isEliminated (?ps2 ! b) = isEliminated (?ps1 ! b)"
    using sameSeats_flags[OF seats] blt len by (metis length_map nth_map)
  ultimately have act: "\<not> isEliminated (?ps2 ! b)" by simp
  have blt2: "b < length ?ps2" using blt len by simp
  then have "\<exists>p \<in> set ?ps2. \<not> isEliminated p" using act nth_mem by blast
  from active_offset_exists[OF blt2 this] obtain k where k: "firstActiveAfter ?ps2 b k" ..
  from nextPlayerIdx_first_active[OF blt2 k] have
    n: "getNextPlayerId ?ps2 ?c = Some (Inr (playerId (?ps2 ! ((b + k) mod length (players s)))))"
    by (simp add: getNextPlayerId_def f2 len)
  have f: "findPlayer (playerId bt) (players s) = Some bt"
    by (rule findPlayer_distinct[OF dist t(1)])
  from correct_guess_players[OF dist f t(3)] obtain qs0 e where
    mr: "markRevealed (playerId bt) i (players s) = Inr qs0" and
    el: "eliminateIfRevealed (playerId bt) qs0 = Inr (e, ?ps1)"
    by blast
  have "botCorrect s bt i = Some (Inr (checkWinner ?ps2
        ((addLog BotCorrect s)\<lparr>players := ?ps2, phase := DRAW,
            currentTurnPlayerId := playerId (?ps2 ! ((b + k) mod length (players s))),
            drawnTile := None\<rparr>)))"
    by (simp add: botCorrect_def mr el m n)
  with k show ?thesis by (intro exI[of _ k] conjI)
qed

lemma executeBotMove_correct:
  assumes "phase s = GUESS"
    and "pick rTarget (opponents s) = Some bt"
    and "pick rTile (hiddenTiles bt) = Some (t, i)"
    and "pick rValue (possibleValues jokers) = Some (tileValue t)"
  shows "executeBotMove jokers rDraw rTarget rTile rValue s = botCorrect s bt i"
proof -
  from pick_Some[OF assms(2)] have "opponents s \<noteq> []" by auto
  moreover from pick_Some[OF assms(3)] have "hiddenTiles bt \<noteq> []" by auto
  ultimately show ?thesis using assms by (simp add: executeBotMove_def)
qed

text \<open>In a reachable state the turn holder has a seat, and is in the game.\<close>

lemma reachable_turn_holder:
  assumes "reachable s"
  shows "(\<exists>i. findIndex (\<lambda>p. playerId p = currentTurnPlayerId s) (players s) = Some i) \<and>
         (\<exists>p \<in> set (players s). \<not> isEliminated p)"
proof -
  from reachable_wellFormed[OF assms] obtain p where
    p: "p \<in> set (players s)" "playerId p = currentTurnPlayerId s" "\<not> isEliminated p"
    unfolding wellFormed_def by blast
  then have "findIndex (\<lambda>p. playerId p = currentTurnPlayerId s) (players s) \<noteq> None"
    unfolding findIndex_None by blast
  with p show ?thesis by blast
qed

text \<open>The drawn-tile slot of a reachable state in the phase \<open>DRAW\<close> is empty.\<close>

lemma reachable_draw_slot: "reachable s \<Longrightarrow> phase s = DRAW \<Longrightarrow> drawnTile s = None"
  using reachable_wellFormed[of s] by (simp add: wellFormed_def)

section \<open>The example game is a game\<close>

lemma startGame_example: "startGame exampleConfig (\<lambda>_. 0) (\<lambda>_. 0) = Inr dealt"
  by code_simp

lemma reachable_dealt: "reachable dealt"
proof (rule reachable.start[OF _ _ startGame_example])
  show "validSetup exampleConfig" by (simp add: validSetup_def exampleConfig_def)
  show "\<forall>i::nat. (0::real) \<le> 0 \<and> (0::real) < 1" by simp
qed

lemma step_playGuess: "playGuess i v s = s \<or> step s (playGuess i v s)"
proof (cases "guess 1 (int i) (tileId (hand (players s ! 1) ! i)) v s")
  case None
  then show ?thesis by (simp add: playGuess_def)
next
  case (Some r)
  show ?thesis
  proof (cases r)
    case (Inl e)
    with Some show ?thesis by (simp add: playGuess_def)
  next
    case (Inr s')
    with Some have "playGuess i v s = s'" by (simp add: playGuess_def)
    with Some Inr step.guess[of 1 "int i" _ v s s'] show ?thesis by simp
  qed
qed

lemma reachable_playGuess: "reachable s \<Longrightarrow> reachable (playGuess i v s)"
  using step_playGuess[of i v s] reachable.after[of s "playGuess i v s"] by auto

lemma reachable_firstDraw: "reachable firstDraw"
  unfolding firstDraw_def by (rule reachable.after[OF reachable_dealt step.draw])

lemma reachable_lastGuess: "reachable lastGuess"
  unfolding lastGuess_def
  by (intro reachable.after[OF _ step.continue] reachable_playGuess reachable_firstDraw)

lemma reachable_endgame: "reachable endgame"
  unfolding endgame_def by (rule reachable_playGuess[OF reachable_lastGuess])

lemma reachable_botToGuess: "reachable botToGuess"
  unfolding botToGuess_def
  by (intro reachable.after[OF _ step.draw] reachable_playGuess reachable_firstDraw)

lemma step_lastGuess_endgame: "step lastGuess endgame"
proof -
  have "endgame \<noteq> lastGuess" by code_simp
  then show ?thesis using step_playGuess[of 3 4 lastGuess] by (simp add: endgame_def)
qed

lemma step_pass: "pass s = s \<or> step s (pass s)"
proof (cases "endTurn False s")
  case None
  then show ?thesis by (simp add: pass_def)
next
  case (Some r)
  show ?thesis
  proof (cases r)
    case (Inl e)
    with Some show ?thesis by (simp add: pass_def)
  next
    case (Inr s')
    with Some have "pass s = s'" by (simp add: pass_def)
    with Some Inr step.endTurn[of False s s'] show ?thesis by simp
  qed
qed

lemma reachable_pass: "reachable s \<Longrightarrow> reachable (pass s)"
  using step_pass[of s] reachable.after[of s "pass s"] by auto

lemma reachable_drawAndPass: "reachable s \<Longrightarrow> reachable (drawAndPass s)"
  unfolding drawAndPass_def by (intro reachable_pass reachable.after[OF _ step.draw])

lemma reachable_turns: "reachable s \<Longrightarrow> reachable ((drawAndPass ^^ n) s)"
  by (induction n) (simp_all add: reachable_drawAndPass)

lemma reachable_drained: "reachable drained"
  unfolding drained_def by (rule reachable_turns[OF reachable_dealt])

section \<open>What the commands do to the tiles\<close>

lemma tileInfo_updates [simp]:
  "tileInfo (t\<lparr>isRevealed := b\<rparr>) = tileInfo t"
  "tileInfo (t\<lparr>ownerId := o'\<rparr>) = tileInfo t"
  by (simp_all add: tileInfo_def)

lemma handTable_simps [simp]:
  "handTable [] = {#}"
  "handTable (p # ps) = mset (map tileInfo (hand p)) + handTable ps"
  by (simp_all add: handTable_def)

lemma tileTable_parts:
  "tileTable s = mset (map tileInfo (pool s))
       + mset (map tileInfo (case drawnTile s of None \<Rightarrow> [] | Some d \<Rightarrow> [d]))
       + handTable (players s)"
  by (simp add: tileTable_def allTiles_def handTable_def)

lemma handTable_map_cong:
  assumes "\<And>p. p \<in> set ps \<Longrightarrow> mset (map tileInfo (hand (f p))) = mset (map tileInfo (hand p))"
  shows "handTable (map f ps) = handTable ps"
  using assms by (induction ps) simp_all

lemma handTable_update:
  "i < length ps \<Longrightarrow>
   handTable (ps[i := (ps ! i)\<lparr>hand := h\<rparr>]) + mset (map tileInfo (hand (ps ! i)))
     = handTable ps + mset (map tileInfo h)"
proof (induction ps arbitrary: i)
  case Nil
  then show ?case by simp
next
  case (Cons p ps)
  show ?case
  proof (cases i)
    case 0
    then show ?thesis by simp
  next
    case (Suc j)
    with Cons.prems have "j < length ps" by simp
    from Cons.IH[OF this] Suc show ?thesis by (simp add: ac_simps)
  qed
qed

lemma mset_info_sortHand: "mset (map tileInfo (sortHand xs)) = mset (map tileInfo xs)"
proof -
  have "mset (map tileInfo (sortHand xs)) = image_mset tileInfo (mset (sortHand xs))" by simp
  also have "\<dots> = image_mset tileInfo (mset xs)" by (simp only: mset_sortHand)
  finally show ?thesis by simp
qed

lemma handTable_merge:
  assumes "i < length ps"
  shows "handTable (ps[i := (ps ! i)\<lparr>hand := sortHand (hand (ps ! i) @ [x])\<rparr>])
           = add_mset (tileInfo x) (handTable ps)"
  using handTable_update[OF assms, of "sortHand (hand (ps ! i) @ [x])"]
  by (simp add: mset_sortHand)

lemma info_revealAt: "map tileInfo (hand (revealAt i p)) = map tileInfo (hand p)"
proof (cases "i < length (hand p)")
  case True
  then show ?thesis by (simp add: revealAt_def map_update list_update_same_conv)
next
  case False
  then show ?thesis by (simp add: revealAt_def list_update_beyond)
qed

lemma mset_info_revealAt:
  "image_mset tileInfo (mset (hand (revealAt i p))) = image_mset tileInfo (mset (hand p))"
  using arg_cong[OF info_revealAt, of mset i p] by simp

lemma handTable_afterCorrectGuess: "handTable (afterCorrectGuess target i ps) = handTable ps"
  unfolding afterCorrectGuess_def
  by (rule handTable_map_cong) (simp add: mset_info_revealAt)

lemma allTiles_checkWinner [simp]: "allTiles (checkWinner ps s) = allTiles s"
  by (simp add: allTiles_def)

lemma tileTable_checkWinner [simp]: "tileTable (checkWinner ps s) = tileTable s"
  by (simp add: tileTable_def)

lemma tileTable_continueTurn: "tileTable (continueTurn s) = tileTable s"
  by (simp add: continueTurn_def tileTable_def allTiles_def)

lemma tileTable_endTurn:
  assumes "endTurn b s = Some (Inr s')"
  shows "tileTable s' = tileTable s"
proof -
  let ?cur = "findIndex (\<lambda>p. playerId p = currentTurnPlayerId s) (players s)"
  from endTurn_returns[OF assms] obtain qs where
    m: "mergeDrawn b s ?cur = Inr qs" and s': "players s' = qs" "pool s' = pool s" "drawnTile s' = None"
    by auto
  show ?thesis
  proof (cases "drawnTile s")
    case None
    with m have "qs = players s" by (simp add: mergeDrawn_def)
    with s' None show ?thesis by (simp add: tileTable_parts)
  next
    case (Some d)
    with m obtain i where i: "?cur = Some i"
      by (auto simp: mergeDrawn_def split: option.splits)
    from findIndex_Some[OF i] have ilt: "i < length (players s)" by simp
    let ?d = "if \<not> b then d\<lparr>isRevealed := True\<rparr> else d"
    from m Some i have "qs = (players s)[i := (players s ! i)
        \<lparr>hand := sortHand (hand (players s ! i) @ [?d])\<rparr>]"
      by (simp add: mergeDrawn_def Let_def)
    then have "handTable qs = add_mset (tileInfo ?d) (handTable (players s))"
      using handTable_merge[OF ilt] by simp
    moreover have "tileInfo ?d = tileInfo d" by simp
    ultimately show ?thesis using s' Some by (simp add: tileTable_parts)
  qed
qed

lemma tileTable_guess:
  assumes "distinct (map playerId (players s))" "guess target idx tid v s = Some (Inr s')"
  shows "tileTable s' = tileTable s"
proof -
  from guess_returns[OF assms] consider
    (same) "s' = s" | (wrong) "endTurn False s = Some (Inr s')"
    | (correct) l where
        "s' = checkWinner (afterCorrectGuess target (nat idx) (players s))
                (s\<lparr>players := afterCorrectGuess target (nat idx) (players s), phase := RESOLVE,
                   turnLog := l\<rparr>)"
    by blast
  then show ?thesis
  proof cases
    case same
    then show ?thesis by simp
  next
    case wrong
    then show ?thesis by (rule tileTable_endTurn)
  next
    case correct
    then show ?thesis by (simp add: tileTable_parts handTable_afterCorrectGuess)
  qed
qed

lemma botMergeDrawn_table:
  assumes "botMergeDrawn s ps = Inr qs"
  shows "handTable qs
     = handTable ps + mset (map tileInfo (case drawnTile s of None \<Rightarrow> [] | Some d \<Rightarrow> [d]))"
proof (cases "drawnTile s")
  case None
  with assms show ?thesis by (simp add: botMergeDrawn_def)
next
  case (Some d)
  with assms obtain b where
    b: "findIndex (\<lambda>p. playerId p = currentTurnPlayerId s) ps = Some b"
    by (auto simp: botMergeDrawn_def split: option.splits)
  from findIndex_Some[OF b] have blt: "b < length ps" by simp
  from assms Some b have "qs = ps[b := (ps ! b)\<lparr>hand := sortHand (hand (ps ! b) @ [d])\<rparr>]"
    by (simp add: botMergeDrawn_def)
  with handTable_merge[OF blt, of d] Some show ?thesis by simp
qed

lemma tileTable_botCorrect:
  assumes dist: "distinct (map playerId (players s))"
    and t: "target \<in> set (players s)" "i < length (hand target)"
    and b: "botCorrect s target i = Some (Inr s')"
  shows "tileTable s' = tileTable s"
proof -
  let ?ps1 = "afterCorrectGuess (playerId target) i (players s)"
  from botCorrect_returns[OF dist t b] obtain qs k where
    qs: "botMergeDrawn s ?ps1 = Inr qs" and
    s': "s' = checkWinner qs ((addLog BotCorrect s)\<lparr>players := qs, phase := DRAW,
                currentTurnPlayerId := playerId (qs ! k), drawnTile := None\<rparr>)"
    by blast
  show ?thesis
    by (simp add: s' tileTable_parts botMergeDrawn_table[OF qs] handTable_afterCorrectGuess addLog_def)
qed

lemma drawTile_idle: "phase s \<noteq> DRAW \<Longrightarrow> drawTile r s = s"
  by (simp add: drawTile_def)

text \<open>A draw moves the last tile of the pool into the slot; only a bot's joker gets a new key.\<close>

lemma drawTile_draws:
  assumes "phase s = DRAW" "pool s \<noteq> []"
  shows "\<exists>l'. drawTile r s = (addLog (PlayerDrawn (color (last (pool s))))
            (s\<lparr>pool := butlast (pool s), drawnTile := Some l', phase := GUESS\<rparr>)) \<and>
            l' = (if currentIsBot s \<and> isJoker (last (pool s))
                  then (last (pool s))\<lparr>ownerId := Some (currentTurnPlayerId s), sortValue := r * 12\<rparr>
                  else (last (pool s))\<lparr>ownerId := Some (currentTurnPlayerId s)\<rparr>)"
  using assms by (simp add: drawTile_def Let_def currentIsBot_def)

lemma tileTable_drawTile:
  assumes slot: "phase s = DRAW \<longrightarrow> drawnTile s = None"
  shows "if botDrawsJoker s
         then \<exists>i v k p. (i, True, v, k, p) \<in># tileTable s \<and>
                tileTable (drawTile r s)
                  = add_mset (i, True, v, r * 12, p) (tileTable s - {#(i, True, v, k, p)#})
         else tileTable (drawTile r s) = tileTable s"
proof (cases "phase s = DRAW \<and> pool s \<noteq> []")
  case False
  then show ?thesis by (auto simp: drawTile_def addLog_def tileTable_parts botDrawsJoker_def)
next
  case True
  let ?l = "last (pool s)"
  have "mset (butlast (pool s) @ [?l]) = add_mset ?l (mset (butlast (pool s)))" by simp
  with True have m: "mset (pool s) = add_mset ?l (mset (butlast (pool s)))" by simp
  have tp: "image_mset tileInfo (mset (pool s))
      = add_mset (tileInfo ?l) (image_mset tileInfo (mset (butlast (pool s))))"
    by (simp only: m image_mset_add_mset)
  from True slot have ts: "tileTable s = add_mset (tileInfo ?l)
        (mset (map tileInfo (butlast (pool s))) + handTable (players s))"
    by (simp add: tileTable_parts tp)
  from True drawTile_draws[of s r] obtain l' where
    d: "drawTile r s = (addLog (PlayerDrawn (color ?l))
            (s\<lparr>pool := butlast (pool s), drawnTile := Some l', phase := GUESS\<rparr>))"
    and l': "l' = (if currentIsBot s \<and> isJoker ?l
                  then ?l\<lparr>ownerId := Some (currentTurnPlayerId s), sortValue := r * 12\<rparr>
                  else ?l\<lparr>ownerId := Some (currentTurnPlayerId s)\<rparr>)"
    by blast
  have ts': "tileTable (drawTile r s) = add_mset (tileInfo l')
        (mset (map tileInfo (butlast (pool s))) + handTable (players s))"
    by (simp add: d addLog_def tileTable_parts)
  show ?thesis
  proof (cases "botDrawsJoker s")
    case False
    with True have "\<not> (currentIsBot s \<and> isJoker ?l)" by (simp add: botDrawsJoker_def)
    with l' have "tileInfo l' = tileInfo ?l" by auto
    with False ts ts' show ?thesis by simp
  next
    case bj: True
    with l' have i: "tileInfo l' = (tileId ?l, True, tileValue ?l, r * 12, isPlaced ?l)"
      "tileInfo ?l = (tileId ?l, True, tileValue ?l, sortValue ?l, isPlaced ?l)"
      by (simp_all add: botDrawsJoker_def tileInfo_def)
    have "\<exists>i v k p. (i, True, v, k, p) \<in># tileTable s \<and>
                tileTable (drawTile r s)
                  = add_mset (i, True, v, r * 12, p) (tileTable s - {#(i, True, v, k, p)#})"
      by (intro exI[of _ "tileId ?l"] exI[of _ "tileValue ?l"] exI[of _ "sortValue ?l"]
            exI[of _ "isPlaced ?l"])
         (simp add: ts ts' i)
    with bj show ?thesis by simp
  qed
qed

lemma in_remove_other: "x \<in># M \<Longrightarrow> x \<noteq> a \<Longrightarrow> x \<in># M - {#a#}"
  by (metis diff_zero insert_DiffM insert_noteq_member minus_add_mset_if_not_in_lhs)

lemma set_tileTable: "set_mset (tileTable s) = tileInfo ` tilesOf s"
  by (simp add: tileTable_def tilesOf_def)

lemma ids_tileTable: "mset (map tileId (allTiles s)) = image_mset fst (tileTable s)"
  by (simp add: tileTable_def tileInfo_def multiset.map_comp comp_def)

lemma uniqueIds_table:
  assumes "image_mset fst (tileTable s') = image_mset fst (tileTable s)"
  shows "uniqueIds s' = uniqueIds s"
  unfolding uniqueIds_def
  by (rule mset_eq_imp_distinct_iff) (simp only: ids_tileTable assms)

lemma keysFaithful_table:
  "keysFaithful s \<longleftrightarrow> (\<forall>x \<in># tileTable s. case x of (i, j, v, k, p) \<Rightarrow> \<not> j \<longrightarrow> k = real_of_int v)"
  by (simp add: keysFaithful_def set_tileTable tileInfo_def)

lemma placedIds_table: "d \<in> placedIds s \<longleftrightarrow> (\<exists>j v k. (d, j, v, k, True) \<in># tileTable s)"
proof
  assume "d \<in> placedIds s"
  then obtain t where t: "t \<in> tilesOf s" "isPlaced t" "d = tileId t"
    by (auto simp: placedIds_def)
  then have "tileInfo t = (d, isJoker t, tileValue t, sortValue t, True)"
    by (simp add: tileInfo_def)
  with t(1) have "(d, isJoker t, tileValue t, sortValue t, True) \<in> tileInfo ` tilesOf s"
    by (metis imageI)
  then show "\<exists>j v k. (d, j, v, k, True) \<in># tileTable s"
    unfolding set_tileTable by blast
next
  assume "\<exists>j v k. (d, j, v, k, True) \<in># tileTable s"
  then obtain j v k where "(d, j, v, k, True) \<in> tileInfo ` tilesOf s"
    unfolding set_tileTable by blast
  then obtain t where "t \<in> tilesOf s" "tileInfo t = (d, j, v, k, True)"
    by (metis imageE)
  then have "t \<in> {t \<in> tilesOf s. isPlaced t}" "tileId t = d"
    by (simp_all add: tileInfo_def)
  then show "d \<in> placedIds s" unfolding placedIds_def by blast
qed

lemma jokerRekeyed_ids:
  assumes "jokerRekeyed M M'"
  shows "image_mset fst M' = image_mset fst M"
proof -
  from assms obtain i v k k' p p' where
    a: "(i, True, v, k, p) \<in># M" and
    M': "M' = add_mset (i, True, v, k', p') (M - {#(i, True, v, k, p)#})"
    unfolding jokerRekeyed_def by blast
  from a have "M = add_mset (i, True, v, k, p) (M - {#(i, True, v, k, p)#})" by simp
  then have "image_mset fst M = add_mset i (image_mset fst (M - {#(i, True, v, k, p)#}))"
    by (metis fst_conv image_mset_add_mset)
  with M' show ?thesis by simp
qed

lemma jokerRekeyed_uniqueIds:
  "jokerRekeyed (tileTable s) (tileTable s') \<Longrightarrow> uniqueIds s' = uniqueIds s"
  by (rule uniqueIds_table) (rule jokerRekeyed_ids)

lemma jokerRekeyed_keysFaithful:
  assumes "jokerRekeyed (tileTable s) (tileTable s')" "keysFaithful s"
  shows "keysFaithful s'"
proof -
  from assms(1) obtain i v k k' p p' where
    M': "tileTable s' = add_mset (i, True, v, k', p') (tileTable s - {#(i, True, v, k, p)#})"
    unfolding jokerRekeyed_def by blast
  show ?thesis
    unfolding keysFaithful_table
  proof
    fix x assume "x \<in># tileTable s'"
    with M' have "x = (i, True, v, k', p') \<or> x \<in># tileTable s" by (auto dest: in_diffD)
    with assms(2) show "case x of (i, j, v, k, p) \<Rightarrow> \<not> j \<longrightarrow> k = real_of_int v"
      unfolding keysFaithful_table by auto
  qed
qed

lemma jokerRekeyed_placedIds:
  assumes "jokerRekeyed (tileTable s) (tileTable s')"
  shows "placedIds s \<subseteq> placedIds s'"
proof
  from assms obtain i v k k' p p' where
    pp: "p \<longrightarrow> p'" and
    M': "tileTable s' = add_mset (i, True, v, k', p') (tileTable s - {#(i, True, v, k, p)#})"
    unfolding jokerRekeyed_def by blast
  fix d assume "d \<in> placedIds s"
  then obtain j w c where x: "(d, j, w, c, True) \<in># tileTable s"
    unfolding placedIds_table by blast
  show "d \<in> placedIds s'"
  proof (cases "(d, j, w, c, True) = (i, True, v, k, p)")
    case True
    with pp M' have "(d, True, v, k', True) \<in># tileTable s'" by simp
    then show ?thesis unfolding placedIds_table by blast
  next
    case False
    with x have "(d, j, w, c, True) \<in># tileTable s - {#(i, True, v, k, p)#}"
      by (rule in_remove_other)
    with M' have "(d, j, w, c, True) \<in># tileTable s'" by simp
    then show ?thesis unfolding placedIds_table by blast
  qed
qed

text \<open>The reposition of the joker \<open>d\<close> in a hand that holds it once.\<close>

lemma rekey_hand:
  assumes "distinct (map tileId h)" "obj \<in> set h" "tileId obj = d"
  shows "image_mset tileInfo (mset (map (\<lambda>x. if tileId x = d then x\<lparr>sortValue := k, isPlaced := True\<rparr> else x) h))
     = add_mset (tileInfo (obj\<lparr>sortValue := k, isPlaced := True\<rparr>))
         (image_mset tileInfo (mset h) - {#tileInfo obj#})"
  using assms
proof (induction h)
  case Nil
  then show ?case by simp
next
  case (Cons x h)
  let ?u = "\<lambda>x. if tileId x = d then x\<lparr>sortValue := k, isPlaced := True\<rparr> else x"
  show ?case
  proof (cases "x = obj")
    case True
    with Cons.prems have "\<forall>y \<in> set h. tileId y \<noteq> d" by (auto simp: image_iff)
    then have "map ?u h = h" by (induction h) simp_all
    with True Cons.prems(3) show ?thesis by simp
  next
    case False
    with Cons.prems have o: "obj \<in> set h" by simp
    with Cons.prems have ne: "tileId x \<noteq> d" by (auto simp: image_iff)
    then have "tileInfo x \<noteq> tileInfo obj" using Cons.prems(3) by (auto simp: tileInfo_def)
    moreover from Cons.prems o have "image_mset tileInfo
       (mset (map ?u h)) = add_mset (tileInfo (obj\<lparr>sortValue := k, isPlaced := True\<rparr>))
         (image_mset tileInfo (mset h) - {#tileInfo obj#})"
      by (intro Cons.IH) simp_all
    ultimately show ?thesis using ne by simp
  qed
qed

lemma handTable_replace:
  assumes "distinct (map playerId ps)" "cp \<in> set ps"
  shows "handTable (map (\<lambda>p. if playerId p = playerId cp then p\<lparr>hand := H\<rparr> else p) ps)
           + image_mset tileInfo (mset (hand cp))
         = handTable ps + image_mset tileInfo (mset H)"
  using assms
proof (induction ps)
  case Nil
  then show ?case by simp
next
  case (Cons p ps)
  let ?g = "\<lambda>p. if playerId p = playerId cp then p\<lparr>hand := H\<rparr> else p"
  show ?case
  proof (cases "p = cp")
    case True
    with Cons.prems have "\<forall>q \<in> set ps. playerId q \<noteq> playerId cp" by (auto simp: image_iff)
    then have "map ?g ps = ps" by (induction ps) simp_all
    with True show ?thesis by simp
  next
    case False
    with Cons.prems have c: "cp \<in> set ps" by simp
    with Cons.prems have "playerId p \<noteq> playerId cp" by (auto simp: image_iff)
    moreover from Cons.prems c have "handTable (map ?g ps) + image_mset tileInfo (mset (hand cp))
         = handTable ps + image_mset tileInfo (mset H)"
      by (intro Cons.IH) simp_all
    ultimately show ?thesis by (simp add: ac_simps)
  qed
qed

lemma hand_in_tiles: "p \<in> set (players s) \<Longrightarrow> set (hand p) \<subseteq> tilesOf s"
  by (auto simp: tilesOf_def allTiles_def)

lemma uniqueIds_inj: "uniqueIds s \<Longrightarrow> inj_on tileId (tilesOf s)"
  by (simp add: uniqueIds_def tilesOf_def distinct_map)

lemma uniqueIds_hand:
  assumes "uniqueIds s" "p \<in> set (players s)"
  shows "distinct (map tileId (hand p))"
proof -
  from assms(1) have "distinct (concat (map (map tileId \<circ> hand) (players s)))"
    by (simp add: uniqueIds_def allTiles_def map_concat split: option.splits)
  then have "\<forall>ys \<in> set (map (map tileId \<circ> hand) (players s)). distinct ys"
    by (simp add: distinct_concat_iff)
  with assms(2) show ?thesis by simp
qed

lemma swap_one: "add_mset a T' = add_mset u T \<Longrightarrow> a \<in># T \<Longrightarrow> T' = add_mset u (T - {#a#})"
  by (metis add_mset_remove_trivial add_mset_diff_bothsides diff_union_swap2 insert_DiffM add_mset_commute)

lemma drawn_in_tiles: "drawnTile s = Some d \<Longrightarrow> d \<in> tilesOf s"
  by (simp add: tilesOf_def allTiles_def)

lemma tileTable_handleDrop:
  assumes dist: "distinct (map playerId (players s))" and u: "uniqueIds s"
  shows "handleDrop d x s = s \<or>
     (\<exists>v k k'. (d, True, v, k, False) \<in># tileTable s \<and>
        tileTable (handleDrop d x s)
          = add_mset (d, True, v, k', True) (tileTable s - {#(d, True, v, k, False)#}))"
  using handleDrop_cases[of d x s]
proof (elim disjE exE conjE, goal_cases)
    case same: 1
    then show ?thesis by simp
  next
    case drawn: (2 dr cp)
    let ?k' = "newSortValueFor (hand cp) d x"
    let ?o = "(d, True, tileValue dr, sortValue dr, False)"
    let ?u = "(d, True, tileValue dr, ?k', True)"
    from drawn have o: "tileInfo dr = ?o" by (simp add: tileInfo_def)
    from drawn have u': "tileInfo (dr\<lparr>sortValue := ?k', isPlaced := True\<rparr>) = ?u"
      by (simp add: tileInfo_def)
    from drawn_in_tiles[OF drawn(1)] have m: "?o \<in># tileTable s"
      unfolding set_tileTable o[symmetric] by (rule imageI)
    have "add_mset ?o (tileTable (handleDrop d x s)) = add_mset ?u (tileTable s)"
      by (simp add: drawn(6) drawn(1) tileTable_parts o u')
    from swap_one[OF this m] m show ?thesis by blast
  next
    case inhand: (3 cp obj)
    let ?k' = "newSortValueFor (hand cp) d x"
    let ?upd = "\<lambda>y. if tileId y = d then y\<lparr>sortValue := ?k', isPlaced := True\<rparr> else y"
    let ?H = "sortHand (map ?upd (hand cp))"
    let ?o = "(d, True, tileValue obj, sortValue obj, False)"
    let ?u = "(d, True, tileValue obj, ?k', True)"
    let ?C = "image_mset tileInfo (mset (hand cp))"
    from findPlayer_Some[OF inhand(1)] have cp: "cp \<in> set (players s)" by simp
    from inhand(2) have obj: "obj \<in> set (hand cp)" "tileId obj = d"
      by (auto simp: find_Some_iff)
    from obj inhand have o: "tileInfo obj = ?o" by (simp add: tileInfo_def)
    from obj inhand have u': "tileInfo (obj\<lparr>sortValue := ?k', isPlaced := True\<rparr>) = ?u"
      by (simp add: tileInfo_def)
    from obj(1) have oC: "?o \<in># ?C" unfolding o[symmetric] by simp
    from hand_in_tiles[OF cp] obj(1) have "obj \<in> tilesOf s" by blast
    then have m: "?o \<in># tileTable s"
      unfolding set_tileTable o[symmetric] by (rule imageI)
    have "image_mset tileInfo (mset ?H) = image_mset tileInfo (mset (map ?upd (hand cp)))"
      by (simp only: mset_sortHand)
    also have "\<dots> = add_mset ?u (?C - {#?o#})"
      using rekey_hand[OF uniqueIds_hand[OF u cp] obj, of ?k'] by (simp only: o u')
    finally have H: "image_mset tileInfo (mset ?H) = add_mset ?u (?C - {#?o#})" .
    from handTable_replace[OF dist cp, of ?H]
    have "handTable (players (handleDrop d x s)) + ?C = handTable (players s) + add_mset ?u (?C - {#?o#})"
      by (simp only: H inhand(5)) simp
    moreover from oC have "?C = add_mset ?o (?C - {#?o#})" by simp
    ultimately have "handTable (players (handleDrop d x s)) + add_mset ?o (?C - {#?o#})
         = handTable (players s) + add_mset ?u (?C - {#?o#})"
      by simp
    then have "add_mset ?o (handTable (players (handleDrop d x s))) = add_mset ?u (handTable (players s))"
      by simp
    then have "add_mset ?o (tileTable (handleDrop d x s)) = add_mset ?u (tileTable s)"
      by (simp add: tileTable_parts inhand(5))
    from swap_one[OF this m] m show ?thesis by blast
qed

lemma handleDrop_placed:
  assumes u: "uniqueIds s" and d: "d \<in> placedIds s"
  shows "handleDrop d x s = s"
proof -
  from d obtain t where t: "t \<in> tilesOf s" "isPlaced t" "tileId t = d"
    by (auto simp: placedIds_def)
  have only: "isPlaced t'" if "t' \<in> tilesOf s" "tileId t' = d" for t'
    using inj_onD[OF uniqueIds_inj[OF u], of t' t] that t by simp
  from handleDrop_cases[of d x s] show ?thesis
  proof (elim disjE exE conjE, goal_cases)
    case 1
    then show ?thesis .
  next
    case drawn: (2 dr cp)
    with only[OF drawn_in_tiles[OF drawn(1)]] show ?thesis by simp
  next
    case inhand: (3 cp obj)
    from findPlayer_Some[OF inhand(1)] have cp: "cp \<in> set (players s)" by simp
    from inhand(2) have obj: "obj \<in> set (hand cp)" "tileId obj = d"
      by (auto simp: find_Some_iff)
    from hand_in_tiles[OF cp] obj(1) have "obj \<in> tilesOf s" by blast
    from only[OF this obj(2)] inhand(4) show ?thesis by simp
  qed
qed

text \<open>Which commands change the table.\<close>

lemma step_table:
  assumes wf: "wellFormed s" and st: "step s s'"
  shows "tileTable s' = tileTable s \<or> (\<exists>r. s' = drawTile r s \<and> botDrawsJoker s) \<or>
         (\<exists>d x. s' = handleDrop d x s \<and> s' \<noteq> s)"
proof -
  from wf have dist: "distinct (map playerId (players s))"
    and slot: "phase s = DRAW \<longrightarrow> drawnTile s = None"
    by (simp_all add: wellFormed_def)
  have dr: "tileTable (drawTile r s) = tileTable s \<or> botDrawsJoker s" for r
    using tileTable_drawTile[OF slot, of r] by (cases "botDrawsJoker s") simp_all
  have drawn: ?thesis if "s' = drawTile r s" for r
  proof (cases "botDrawsJoker s")
    case True
    with that show ?thesis by (intro disjI2 disjI1 exI[of _ r]) simp
  next
    case False
    with dr[of r] that show ?thesis by simp
  qed
  from st show ?thesis
  proof cases
    case (draw r)
    then show ?thesis by (rule drawn)
  next
    case (guess target tileIndex tid v)
    from tileTable_guess[OF dist this] show ?thesis by simp
  next
    case continue
    then show ?thesis by (simp add: tileTable_continueTurn)
  next
    case (endTurn w)
    from tileTable_endTurn[OF this] show ?thesis by simp
  next
    case (drop d x)
    show ?thesis
    proof (cases "handleDrop d x s = s")
      case True
      with drop show ?thesis by simp
    next
      case False
      with drop show ?thesis by (intro disjI2 exI[of _ d] exI[of _ x]) simp
    qed
  next
    case (bot jokers rD rT rI rV)
    from executeBotMove_returns[OF this] consider
      (draw) "s' = drawTile rD s" | (same) "s' = s" | (endTurn) w where "endTurn w s = Some (Inr s')"
      | (correct) target i where "target \<in> set (players s)" "i < length (hand target)"
          "botCorrect s target i = Some (Inr s')"
      by blast
    then show ?thesis
    proof cases
      case draw
      then show ?thesis by (rule drawn)
    next
      case same
      then show ?thesis by simp
    next
      case endTurn
      from tileTable_endTurn[OF this] show ?thesis by simp
    next
      case correct
      from tileTable_botCorrect[OF dist this] show ?thesis by simp
    qed
  next
    case (timeout r)
    show ?thesis
    proof (cases "drawnTile s = None")
      case True
      with timeout have "s' = drawTile r s" by (simp add: handleTimeOut_def)
      then show ?thesis by (rule drawn)
    next
      case False
      with timeout have "endTurn False s = Some (Inr s')" by (simp add: handleTimeOut_def)
      from tileTable_endTurn[OF this] show ?thesis by simp
    qed
  qed
qed

lemma step_rekeyed:
  assumes wf: "wellFormed s" and u: "uniqueIds s" and st: "step s s'"
  shows "tileTable s' = tileTable s \<or> jokerRekeyed (tileTable s) (tileTable s')"
proof -
  from wf have dist: "distinct (map playerId (players s))"
    and slot: "phase s = DRAW \<longrightarrow> drawnTile s = None"
    by (simp_all add: wellFormed_def)
  from step_table[OF wf st] consider
    (same) "tileTable s' = tileTable s"
    | (draw) r where "s' = drawTile r s" "botDrawsJoker s"
    | (drop) d x where "s' = handleDrop d x s" "s' \<noteq> s"
    by blast
  then show ?thesis
  proof cases
    case same
    then show ?thesis by simp
  next
    case draw
    with tileTable_drawTile[OF slot, of r] obtain i v k p where
      "(i, True, v, k, p) \<in># tileTable s"
      "tileTable s' = add_mset (i, True, v, r * 12, p) (tileTable s - {#(i, True, v, k, p)#})"
      by auto
    then have "jokerRekeyed (tileTable s) (tileTable s')"
      unfolding jokerRekeyed_def
      by (intro exI[of _ i] exI[of _ v] exI[of _ k] exI[of _ "r * 12"] exI[of _ p]) simp
    then show ?thesis by simp
  next
    case drop
    with tileTable_handleDrop[OF dist u, of d x] obtain v k k' where
      "(d, True, v, k, False) \<in># tileTable s"
      "tileTable s' = add_mset (d, True, v, k', True) (tileTable s - {#(d, True, v, k, False)#})"
      by auto
    then have "jokerRekeyed (tileTable s) (tileTable s')"
      unfolding jokerRekeyed_def
      by (intro exI[of _ d] exI[of _ v] exI[of _ k] exI[of _ k'] exI[of _ False] exI[of _ True]) simp
    then show ?thesis by simp
  qed
qed

lemma keysFaithful_same_table:
  "tileTable s' = tileTable s \<Longrightarrow> keysFaithful s' = keysFaithful s"
  by (simp add: keysFaithful_table)

lemma placedIds_same_table: "tileTable s' = tileTable s \<Longrightarrow> placedIds s' = placedIds s"
  by (auto simp: placedIds_table)

lemma step_tiles:
  assumes wf: "wellFormed s" and u: "uniqueIds s" and st: "step s s'"
  shows "uniqueIds s'" "keysFaithful s \<Longrightarrow> keysFaithful s'" "placedIds s \<subseteq> placedIds s'"
proof -
  from step_rekeyed[OF wf u st] have
    r: "tileTable s' = tileTable s \<or> jokerRekeyed (tileTable s) (tileTable s')" .
  from r u show "uniqueIds s'"
    using uniqueIds_table[of s' s] jokerRekeyed_uniqueIds[of s s'] by auto
  from r show "keysFaithful s \<Longrightarrow> keysFaithful s'"
    using keysFaithful_same_table[of s' s] jokerRekeyed_keysFaithful[of s s'] by auto
  from r show "placedIds s \<subseteq> placedIds s'"
    using placedIds_same_table[of s' s] jokerRekeyed_placedIds[of s s'] by auto
qed

text \<open>The tiles of a new game.\<close>

lemma dealt_hand_tiles:
  fixes jr :: "TileId \<Rightarrow> real"
  assumes "\<forall>t \<in> set xs. \<not> isJoker t \<longrightarrow> sortValue t = real_of_int (tileValue t)"
  shows "map tileId ((if b then map (\<lambda>t. if isJoker t then t\<lparr>sortValue := jr (tileId t) * 12\<rparr> else t)
                      else (\<lambda>h. h)) (map (\<lambda>t. t\<lparr>ownerId := Some i\<rparr>) xs))
           = map tileId xs"
    and "\<forall>t \<in> set ((if b then map (\<lambda>t. if isJoker t then t\<lparr>sortValue := jr (tileId t) * 12\<rparr> else t)
                        else (\<lambda>h. h)) (map (\<lambda>t. t\<lparr>ownerId := Some i\<rparr>) xs)).
           \<not> isJoker t \<longrightarrow> sortValue t = real_of_int (tileValue t)"
proof -
  let ?f = "\<lambda>t. if isJoker t then t\<lparr>sortValue := jr (tileId t) * 12\<rparr> else t"
  have a: "tileId (?f t) = tileId t" "isJoker (?f t) = isJoker t" "tileValue (?f t) = tileValue t"
    "\<not> isJoker t \<Longrightarrow> sortValue (?f t) = sortValue t" for t
    by simp_all
  show "map tileId ((if b then map ?f else (\<lambda>h. h)) (map (\<lambda>t. t\<lparr>ownerId := Some i\<rparr>) xs))
           = map tileId xs"
    by (cases b) (simp_all add: comp_def)
  show "\<forall>t \<in> set ((if b then map ?f else (\<lambda>h. h)) (map (\<lambda>t. t\<lparr>ownerId := Some i\<rparr>) xs)).
           \<not> isJoker t \<longrightarrow> sortValue t = real_of_int (tileValue t)"
  proof (cases b)
    case True
    show ?thesis
    proof (intro ballI impI)
      fix t assume "t \<in> set ((if b then map ?f else (\<lambda>h. h)) (map (\<lambda>t. t\<lparr>ownerId := Some i\<rparr>) xs))"
        and nj: "\<not> isJoker t"
      with True obtain t0 where t0: "t0 \<in> set xs" "t = ?f (t0\<lparr>ownerId := Some i\<rparr>)"
        by (auto simp: image_iff)
      from nj t0(2) a(2)[of "t0\<lparr>ownerId := Some i\<rparr>"] have n0: "\<not> isJoker t0" by simp
      with assms t0(1) have "sortValue t0 = real_of_int (tileValue t0)" by blast
      with n0 show "sortValue t = real_of_int (tileValue t)"
        by (simp add: t0(2))
    qed
  next
    case False
    with assms show ?thesis by simp
  qed
qed

lemma dealPlayers_tiles:
  assumes "dealPlayers k jr details i n pl = Inr (ps, rest)"
    and "\<forall>t \<in> set pl. \<not> isJoker t \<longrightarrow> sortValue t = real_of_int (tileValue t)"
  shows "image_mset tileId (mset (concat (map hand ps))) + image_mset tileId (mset rest)
           = image_mset tileId (mset pl) \<and>
         (\<forall>t \<in> set rest \<union> set (concat (map hand ps)).
             \<not> isJoker t \<longrightarrow> sortValue t = real_of_int (tileValue t))"
  using assms
proof (induction n arbitrary: i pl ps rest)
  case 0
  then show ?case by simp
next
  case (Suc n)
  let ?h = "(if setupIsBot (details ! i)
                 then map (\<lambda>t. if isJoker t then t\<lparr>sortValue := jr (tileId t) * 12\<rparr> else t)
                 else (\<lambda>h. h)) (map (\<lambda>t. t\<lparr>ownerId := Some i\<rparr>) (take k pl))"
  from Suc.prems(1) obtain ps' where
    rec: "dealPlayers k jr details (Suc i) n (drop k pl) = Inr (ps', rest)"
    and ps: "ps = \<lparr>playerId = i, name = setupName (details ! i), isBot = setupIsBot (details ! i),
        hand = sortHand ((if setupIsBot (details ! i)
                 then map (\<lambda>t. if isJoker t then t\<lparr>sortValue := jr (tileId t) * 12\<rparr> else t)
                 else (\<lambda>h. h)) (map (\<lambda>t. t\<lparr>ownerId := Some i\<rparr>) (take k pl))),
        isEliminated = False, avatar = setupAvatar (details ! i)\<rparr> # ps'"
    by (auto simp: Let_def split: if_splits sum.splits)
  have sub: "\<forall>t \<in> set (drop k pl). \<not> isJoker t \<longrightarrow> sortValue t = real_of_int (tileValue t)"
    using Suc.prems(2) by (meson in_set_dropD)
  have tk: "\<forall>t \<in> set (take k pl). \<not> isJoker t \<longrightarrow> sortValue t = real_of_int (tileValue t)"
    using Suc.prems(2) by (meson in_set_takeD)
  from Suc.IH[OF rec sub] have
    ih1: "image_mset tileId (mset (concat (map hand ps'))) + image_mset tileId (mset rest)
           = image_mset tileId (mset (drop k pl))"
    and ih2: "\<forall>t \<in> set rest \<union> set (concat (map hand ps')).
             \<not> isJoker t \<longrightarrow> sortValue t = real_of_int (tileValue t)"
    by simp_all
  from dealt_hand_tiles[OF tk, of "setupIsBot (details ! i)" jr i] have
    ids: "map tileId ?h = map tileId (take k pl)"
    and keys: "\<forall>t \<in> set ?h. \<not> isJoker t \<longrightarrow> sortValue t = real_of_int (tileValue t)"
    by simp_all
  have "image_mset tileId (mset (sortHand ?h)) = mset (map tileId ?h)"
    by (simp only: mset_sortHand mset_map)
  also have "\<dots> = image_mset tileId (mset (take k pl))"
    by (simp only: ids mset_map)
  finally have hid: "image_mset tileId (mset (sortHand ?h)) = image_mset tileId (mset (take k pl))" .
  have "mset pl = mset (take k pl) + mset (drop k pl)"
    by (metis append_take_drop_id mset_append)
  then have "image_mset tileId (mset pl)
      = image_mset tileId (mset (take k pl)) + image_mset tileId (mset (drop k pl))"
    by (simp only: image_mset_union)
  also have "\<dots> = image_mset tileId (mset (sortHand ?h))
        + (image_mset tileId (mset (concat (map hand ps'))) + image_mset tileId (mset rest))"
    by (simp only: hid ih1)
  also have "\<dots> = image_mset tileId (mset (concat (map hand ps))) + image_mset tileId (mset rest)"
    unfolding ps by (simp only: list.map concat.simps mset_append image_mset_union
        Player.simps add.assoc)
  finally have one: "image_mset tileId (mset (concat (map hand ps))) + image_mset tileId (mset rest)
           = image_mset tileId (mset pl)" by (rule sym)
  have "set (concat (map hand ps)) = set (sortHand ?h) \<union> set (concat (map hand ps'))"
    unfolding ps by (simp only: list.map concat.simps set_append Player.simps)
  with ih2 keys have two: "\<forall>t \<in> set rest \<union> set (concat (map hand ps)).
             \<not> isJoker t \<longrightarrow> sortValue t = real_of_int (tileValue t)"
    unfolding set_sortHand by blast
  from one two show ?case by (rule conjI)
qed


lemma createInitialTiles_ids: "distinct (map tileId (createInitialTiles b))"
proof (cases b)
  case True
  have "distinct (map tileId (createInitialTiles True))" by code_simp
  with True show ?thesis by simp
next
  case False
  have "distinct (map tileId (createInitialTiles False))" by code_simp
  with False show ?thesis by simp
qed

lemma createInitialTiles_keys:
  "t \<in> set (createInitialTiles b) \<Longrightarrow> \<not> isJoker t \<Longrightarrow> sortValue t = real_of_int (tileValue t)"
  by (auto simp: createInitialTiles_def numberTile_def jokerTile_def split: if_splits)

lemma startGame_tiles:
  assumes r: "\<forall>i. 0 \<le> rnd i \<and> rnd i < 1" and st: "startGame c rnd jr = Inr s"
  shows "uniqueIds s \<and> keysFaithful s"
proof -
  let ?deck = "shuffle rnd (createInitialTiles (includeJokers c))"
  let ?k = "if playerCount c = 4 then 3 else 4 :: nat"
  from st obtain ps rest p0 ps' where
    d: "dealPlayers ?k jr (playerDetails c) 0 (playerCount c) ?deck = Inr (ps, rest)"
    and ps: "ps = p0 # ps'"
    and s: "s = \<lparr>players = ps, currentTurnPlayerId = playerId p0, drawnTile = None,
                 pool = rest, phase = DRAW, winnerId = None,
                 turnLog = [GameStarted], moveNumber = 1\<rparr>"
    by (auto simp: startGame_def Let_def split: sum.splits list.splits)
  have m: "mset ?deck = mset (createInitialTiles (includeJokers c))"
    by (rule mset_shuffle[OF r])
  then have sd: "set ?deck = set (createInitialTiles (includeJokers c))" by (rule mset_eq_setD)
  have "\<forall>t \<in> set ?deck. \<not> isJoker t \<longrightarrow> sortValue t = real_of_int (tileValue t)"
    unfolding sd using createInitialTiles_keys by blast
  from dealPlayers_tiles[OF d this] have
    ids: "image_mset tileId (mset (concat (map hand ps))) + image_mset tileId (mset rest)
           = image_mset tileId (mset ?deck)"
    and keys: "\<forall>t \<in> set rest \<union> set (concat (map hand ps)).
             \<not> isJoker t \<longrightarrow> sortValue t = real_of_int (tileValue t)"
    by simp_all
  have "mset (map tileId (allTiles s)) = mset (map tileId (createInitialTiles (includeJokers c)))"
    using ids by (simp add: s allTiles_def m ac_simps)
  from mset_eq_imp_distinct_iff[OF this] have "uniqueIds s"
    by (simp add: uniqueIds_def createInitialTiles_ids)
  moreover from keys have "keysFaithful s"
    by (auto simp: keysFaithful_def tilesOf_def allTiles_def s)
  ultimately show ?thesis by simp
qed

lemma reachable_tiles: "reachable s \<Longrightarrow> uniqueIds s \<and> keysFaithful s"
proof (induction rule: reachable.induct)
  case (start c rnd jokerRnd s)
  then show ?case by (intro startGame_tiles)
next
  case (after s s')
  from step_tiles(1,2)[OF reachable_wellFormed[OF after(1)] _ after(2)] after(3)
  show ?case by simp
qed

section \<open>The game with jokers is a game\<close>

lemma startGame_jokers: "startGame jokerConfig (\<lambda>_. 0) (\<lambda>_. 0) = Inr jokerDealt"
  by code_simp

lemma reachable_jokerDealt: "reachable jokerDealt"
proof (rule reachable.start[OF _ _ startGame_jokers])
  show "validSetup jokerConfig" by (simp add: validSetup_def jokerConfig_def exampleConfig_def)
  show "\<forall>i::nat. (0::real) \<le> 0 \<and> (0::real) < 1" by simp
qed

lemma reachable_botToDraw: "reachable botToDraw"
  unfolding botToDraw_def
  by (intro reachable_pass reachable.after[OF _ step.draw] reachable_jokerDealt)

lemma reachable_botDrew: "reachable botDrew"
  unfolding botDrew_def by (rule reachable.after[OF reachable_botToDraw step.draw])

lemma reachable_jokerDrawn: "reachable jokerDrawn"
  unfolding jokerDrawn_def
  by (intro reachable.after[OF _ step.draw] reachable_pass reachable_botDrew)

lemma reachable_jokerPlaced: "reachable jokerPlaced"
  unfolding jokerPlaced_def by (rule reachable.after[OF reachable_jokerDrawn step.drop])

text \<open>Sixteen turns of a draw and an end of turn empty the pool of the example game.\<close>

lemma drawAndPass_turn:
  assumes r: "reachable s" and ph: "phase s = DRAW" and ne: "pool s \<noteq> []"
  shows "phase (drawAndPass s) = DRAW \<and> pool (drawAndPass s) = butlast (pool s)"
proof -
  let ?s1 = "drawTile 0 s"
  from drawTile_draws[OF ph ne, of 0] obtain l' where
    d: "?s1 = addLog (PlayerDrawn (color (last (pool s))))
            (s\<lparr>pool := butlast (pool s), drawnTile := Some l', phase := GUESS\<rparr>)"
    by blast
  then have dr: "drawnTile ?s1 = Some l'" and pl: "pool ?s1 = butlast (pool s)"
    by (simp_all add: addLog_def)
  have r1: "reachable ?s1" by (rule reachable.after[OF r step.draw])
  from reachable_turn_holder[OF r1] obtain i where
    i: "findIndex (\<lambda>p. playerId p = currentTurnPlayerId ?s1) (players ?s1) = Some i"
    and c: "\<exists>p \<in> set (players ?s1). \<not> isEliminated p"
    by blast
  from endTurn_with_drawn[OF dr i c, of False] obtain s' where
    e: "endTurn False ?s1 = Some (Inr s')" and s': "pool s' = pool ?s1" "phase s' = DRAW"
    by auto
  from e have "pass ?s1 = s'" by (simp add: pass_def)
  with s' pl show ?thesis by (simp add: drawAndPass_def)
qed

lemma turns_drain:
  assumes r: "reachable s" and ph: "phase s = DRAW"
  shows "n \<le> length (pool s) \<Longrightarrow>
         phase ((drawAndPass ^^ n) s) = DRAW \<and>
         length (pool ((drawAndPass ^^ n) s)) = length (pool s) - n"
proof (induction n)
  case 0
  with ph show ?case by simp
next
  case (Suc n)
  let ?t = "(drawAndPass ^^ n) s"
  from Suc have ih: "phase ?t = DRAW" "length (pool ?t) = length (pool s) - n" by simp_all
  with Suc.prems have ne: "pool ?t \<noteq> []" by auto
  from drawAndPass_turn[OF reachable_turns[OF r] ih(1) ne] ih(2) Suc.prems
  show ?case by simp
qed

lemma drained_pool: "phase drained = DRAW \<and> pool drained = []"
proof -
  have "phase dealt = DRAW" "length (pool dealt) = 16" by (simp_all add: dealt_def)
  with turns_drain[OF reachable_dealt, of 16] show ?thesis by (simp add: drained_def)
qed

section \<open>The claims\<close>

text \<open>
  Claim C10. For a player list in which some player is not eliminated, the cyclic
  selection of the next player (the loop of \<open>endTurn\<close>, the same as the one of
  \<open>getNextPlayerId\<close>) returns, and returns the first player not eliminated strictly after
  the current seat in cyclic seating order; on a table where every player is eliminated
  the loop never returns. (On an empty list there is no loop to speak of: the index is
  \<open>NaN\<close> and the first read raises, see \<open>nextPlayerIdx\<close>.)
\<close>

theorem next_player_selection:
  "(i < length ps \<and> (\<exists>p\<in>set ps. \<not> isEliminated p) \<longrightarrow>
      (\<exists>d. firstActiveAfter ps i d \<and>
           nextPlayerIdx ps (Some i) = Some (Inr ((i + d) mod length ps))))
   \<and> (ps \<noteq> [] \<and> (\<forall>p\<in>set ps. isEliminated p) \<longrightarrow> nextPlayerIdx ps (Some i) = None)"
  using active_offset_exists nextPlayerIdx_first_active nextPlayerIdx_diverges by blast

theorem next_player_selection_witness:
  "0 < length oneLeft \<and> (\<exists>p\<in>set oneLeft. \<not> isEliminated p) \<and>
   (\<exists>d. firstActiveAfter oneLeft 0 d \<and>
        nextPlayerIdx oneLeft (Some 0) = Some (Inr ((0 + d) mod length oneLeft))) \<and>
   noneLeft \<noteq> [] \<and> list_all isEliminated noneLeft \<and>
   nextPlayerIdx noneLeft (Some 0) = None"
proof -
  have h1: "0 < length oneLeft \<and> (\<exists>p\<in>set oneLeft. \<not> isEliminated p)"
    by (simp add: oneLeft_def mkPlayer_def)
  have h2: "noneLeft \<noteq> [] \<and> (\<forall>p\<in>set noneLeft. isEliminated p)"
    by (simp add: noneLeft_def mkPlayer_def revealed_def)
  from h1 h2 next_player_selection[of 0 oneLeft] next_player_selection[of 0 noneLeft]
  show ?thesis unfolding list_all_iff by blast
qed

text \<open>
  Claim C8, as the specification has it: for every collection of tiles the sorted hand is
  non-decreasing in sort key. It fails on two tiles already: a white 3 and a black joker
  with the key 3.0005 are tied by the tolerance, the colour rule puts the joker first,
  and the keys then go down.
\<close>

theorem sortHand_keys_descend_counterexample:
  "sortHand [whiteThree, botJoker] = [botJoker, whiteThree] \<and>
   \<not> keysAscending (sortHand [whiteThree, botJoker])"
  by (simp add: sortHand_def compareTiles_def whiteThree_def botJoker_def numberTile_def
      jokerTile_def keysAscending_def)

text \<open>
  Claim C8, amended: for every collection of tiles whose sort keys are pairwise equal or
  more than the tolerance 0.001 apart, the sorted hand holds the same tiles, is
  non-decreasing in sort key, and of two tiles with sort keys within the tolerance a
  white one never stands before a black one.
\<close>

theorem sortHand_sorted_when_keys_apart:
  assumes "keysApart tiles"
  shows "mset (sortHand tiles) = mset tiles \<and> keysAscending (sortHand tiles) \<and>
         blackFirstOnTies (sortHand tiles)"
proof (intro conjI)
  show "mset (sortHand tiles) = mset tiles" by (rule mset_sortHand)
  have s: "sorted_wrt tileLe (sortHand tiles)" using assms by (rule sorted_sortHand)
  have "sorted_wrt (\<lambda>a b. sortValue a \<le> sortValue b) (sortHand tiles)"
    by (rule sorted_wrt_mono_rel[OF _ s]) (auto simp: tileLe_def)
  then show "keysAscending (sortHand tiles)"
    unfolding keysAscending_def by (simp add: sorted_map)
  have ap: "keysApart (sortHand tiles)"
    using assms unfolding keysApart_def set_sortHand .
  show "blackFirstOnTies (sortHand tiles)"
    unfolding blackFirstOnTies_def
  proof (rule sorted_wrt_mono_rel[OF _ s])
    fix a b assume "a \<in> set (sortHand tiles)" "b \<in> set (sortHand tiles)" "tileLe a b"
    with ap show "\<bar>sortValue a - sortValue b\<bar> \<le> 0.001 \<longrightarrow> color a = BLACK \<or> color b = WHITE"
      unfolding keysApart_def tileLe_def by fastforce
  qed
qed

theorem sortHand_sorted_when_keys_apart_witness:
  "keysApart [numberTile WHITE 3, numberTile BLACK 3, numberTile BLACK 1] \<and>
   sortHand [numberTile WHITE 3, numberTile BLACK 3, numberTile BLACK 1]
     = [numberTile BLACK 1, numberTile BLACK 3, numberTile WHITE 3] \<and>
   keysAscending (sortHand [numberTile WHITE 3, numberTile BLACK 3, numberTile BLACK 1]) \<and>
   blackFirstOnTies (sortHand [numberTile WHITE 3, numberTile BLACK 3, numberTile BLACK 1])"
proof -
  have k: "keysApart [numberTile WHITE 3, numberTile BLACK 3, numberTile BLACK 1]"
    by (simp add: keysApart_def numberTile_def)
  have e: "sortHand [numberTile WHITE 3, numberTile BLACK 3, numberTile BLACK 1]
     = [numberTile BLACK 1, numberTile BLACK 3, numberTile WHITE 3]"
    by (simp add: sortHand_def compareTiles_def numberTile_def)
  from k e sortHand_sorted_when_keys_apart[OF k] show ?thesis by simp
qed



text \<open>
  Claim C9. In the phase \<open>DRAW\<close> with an empty pool, \<open>drawTile\<close> moves to the phase \<open>GUESS\<close>
  and leaves the drawn-tile slot, the pool and the players as they were; the slot of a
  reachable state in the phase \<open>DRAW\<close> is empty, so there it stays empty. \<open>drawTile\<close> has
  no failing branch: it is a total function to game states.
\<close>

theorem drawTile_empty_pool:
  assumes "phase s = DRAW" and "pool s = []"
  shows "phase (drawTile r s) = GUESS \<and> drawnTile (drawTile r s) = drawnTile s \<and>
         (reachable s \<longrightarrow> drawnTile (drawTile r s) = None) \<and>
         pool (drawTile r s) = pool s \<and> players (drawTile r s) = players s"
  using assms reachable_draw_slot[of s] by (simp add: drawTile_def addLog_def)

theorem drawTile_empty_pool_witness:
  "reachable drained \<and> phase drained = DRAW \<and> pool drained = [] \<and>
   phase (drawTile 0 drained) = GUESS \<and> drawnTile (drawTile 0 drained) = None \<and>
   pool (drawTile 0 drained) = [] \<and>
   players (drawTile 0 drained) = players drained"
proof -
  from drained_pool have a: "phase drained = DRAW" and b: "pool drained = []"
    by simp_all
  note t = drawTile_empty_pool[OF a b, of 0]
  from t have p: "phase (drawTile 0 drained) = GUESS" by (rule conjunct1)
  from t reachable_drained have d: "drawnTile (drawTile 0 drained) = None" by blast
  from t have "pool (drawTile 0 drained) = pool drained" by blast
  with b have q: "pool (drawTile 0 drained) = []" by simp
  from t have u: "players (drawTile 0 drained) = players drained" by blast
  from reachable_drained a b p d q u show ?thesis by (intro conjI)
qed

text \<open>
  Claim C1. In every reachable state a player whose tiles are all revealed is
  eliminated, and so it is in the state that any command returns from a reachable state:
  the command that reveals the last hidden tile of a hand sets the flag itself. Only a
  correct guess can do that. \<open>endTurn\<close> never touches the flag and never has to: the
  hand that takes the revealed drawn tile holds a hidden tile unless its player is
  eliminated already.
\<close>

theorem eliminated_when_all_revealed:
  assumes "reachable s"
  shows "(\<forall>p \<in> set (players s). list_all isRevealed (hand p) \<longrightarrow> isEliminated p) \<and>
         (\<forall>s'. step s s' \<longrightarrow>
            (\<forall>p \<in> set (players s'). list_all isRevealed (hand p) \<longrightarrow> isEliminated p))"
proof -
  have "\<forall>p \<in> set (players x). list_all isRevealed (hand p) \<longrightarrow> isEliminated p"
    if "reachable x" for x
    using reachable_wellFormed[OF that] by (simp add: wellFormed_def)
  with assms reachable.after[OF assms] show ?thesis by blast
qed

theorem eliminated_when_all_revealed_witness:
  "reachable lastGuess \<and> step lastGuess endgame \<and>
   \<not> list_all isRevealed (hand (players lastGuess ! 1)) \<and>
   \<not> isEliminated (players lastGuess ! 1) \<and>
   list_all isRevealed (hand (players endgame ! 1)) \<and>
   isEliminated (players endgame ! 1)"
proof -
  have a: "\<not> list_all isRevealed (hand (players lastGuess ! 1))"
    and b: "\<not> isEliminated (players lastGuess ! 1)"
    and c: "list_all isRevealed (hand (players endgame ! 1))"
    and d: "players endgame ! 1 \<in> set (players endgame)"
    by code_simp+
  from eliminated_when_all_revealed[OF reachable_lastGuess] step_lastGuess_endgame c d
  have "isEliminated (players endgame ! 1)" by blast
  with reachable_lastGuess step_lastGuess_endgame a b c show ?thesis by simp
qed









text \<open>
  Claim C2, as the specification has it: a correct guess, of a human or of the bot,
  moves to the phase \<open>RESOLVE\<close> with the acting player unchanged. Ada's fourth correct
  guess eliminates the bot and the state it returns is in the phase \<open>GAME_OVER\<close>; and
  the bot's correct guess (it holds the turn, and \<open>executeBotMove\<close> does not go through
  \<open>submitGuess\<close>) returns a state in the phase \<open>DRAW\<close> in which Ada holds the turn.
\<close>

theorem correct_guess_phase_counterexample:
  "validGuess lastGuess 1 3 \<and>
   targetTile lastGuess 1 3 = Some (owned 1 (numberTile BLACK 4)) \<and>
   phaseAfter (guess 1 3 (NumberedId BLACK 4) 4 lastGuess) = Some GAME_OVER \<and>
   phase botToGuess = GUESS \<and> currentTurnPlayerId botToGuess = 1 \<and>
   pick 0 (opponents botToGuess) = Some (players botToGuess ! 0) \<and>
   pick 0 (hiddenTiles (players botToGuess ! 0)) = Some (owned 0 (numberTile WHITE 0), 1) \<and>
   pick 0 (possibleValues False) = Some 0 \<and>
   phaseAfter (executeBotMove False 0 0 0 0 botToGuess) = Some DRAW \<and>
   holderAfter (executeBotMove False 0 0 0 0 botToGuess) = Some 0"
proof -
  have a: "validGuess lastGuess 1 3"
    and b: "targetTile lastGuess 1 3 = Some (owned 1 (numberTile BLACK 4))"
    and c: "phaseAfter (guess 1 3 (NumberedId BLACK 4) 4 lastGuess) = Some GAME_OVER"
    and d: "phase botToGuess = GUESS" and e: "currentTurnPlayerId botToGuess = 1"
    and f: "pick 0 (opponents botToGuess) = Some (players botToGuess ! 0)"
    and g: "pick 0 (hiddenTiles (players botToGuess ! 0)) = Some (owned 0 (numberTile WHITE 0), 1)"
    and h: "pick 0 (possibleValues False) = Some 0"
    by code_simp+
  have i: "phaseAfter (executeBotMove False 0 0 0 0 botToGuess) = Some DRAW"
    by code_simp
  have j: "holderAfter (executeBotMove False 0 0 0 0 botToGuess) = Some 0"
    by code_simp
  from a b c d e f g h i j show ?thesis by simp
qed

text \<open>
  Claim C2, amended. In a state with distinct player identifiers:
  a valid guess command whose value is the true value of the target tile returns a state
  in which exactly that tile is newly revealed (and its owner eliminated if it was the
  last hidden one), with the turn holder, the move counter, the drawn tile and the pool
  unchanged, in the phase \<open>RESOLVE\<close>, or \<open>GAME_OVER\<close> when exactly one player is left;
  and a correct guess of the bot in the phase \<open>GUESS\<close>, the bot sitting at seat \<open>b\<close> and
  being in the game, reveals its target tile in the same way, leaves the move counter
  and the pool unchanged, and ends the turn in the same operation: the drawn tile joins
  the bot's sorted hand unrevealed, the slot is emptied, the turn goes to the first
  player not eliminated after seat \<open>b\<close>, and the phase is \<open>DRAW\<close>, or \<open>GAME_OVER\<close> when
  exactly one player is left.
\<close>

theorem correct_guess:
  assumes "distinct (map playerId (players s))"
  shows "(validGuess s target tileIndex \<and> targetTile s target tileIndex = Some t \<and> tileValue t = v \<longrightarrow>
          (\<exists>s'. guess target tileIndex tid v s = Some (Inr s') \<and>
                players s' = afterCorrectGuess target (nat tileIndex) (players s) \<and>
                currentTurnPlayerId s' = currentTurnPlayerId s \<and>
                moveNumber s' = moveNumber s \<and> drawnTile s' = drawnTile s \<and> pool s' = pool s \<and>
                phase s' = (if length (activePlayers (players s')) = 1 then GAME_OVER else RESOLVE)))
       \<and> (phase s = GUESS \<and> pick rTarget (opponents s) = Some bt \<and>
            pick rTile (hiddenTiles bt) = Some (t', i) \<and>
            pick rValue (possibleValues jokers) = Some (tileValue t') \<and>
            findIndex (\<lambda>p. playerId p = currentTurnPlayerId s) (players s) = Some b \<and>
            \<not> isEliminated (players s ! b) \<longrightarrow>
          (\<exists>s' k. executeBotMove jokers rDraw rTarget rTile rValue s = Some (Inr s') \<and>
                players s' = botMerged s b (afterCorrectGuess (playerId bt) i (players s)) \<and>
                moveNumber s' = moveNumber s \<and> drawnTile s' = None \<and> pool s' = pool s \<and>
                firstActiveAfter (players s') b k \<and>
                currentTurnPlayerId s' = playerId (players s' ! ((b + k) mod length (players s))) \<and>
                phase s' = (if length (activePlayers (players s')) = 1 then GAME_OVER else DRAW)))"
proof (intro conjI impI)
  assume h: "validGuess s target tileIndex \<and> targetTile s target tileIndex = Some t \<and> tileValue t = v"
  let ?qs = "afterCorrectGuess target (nat tileIndex) (players s)"
  from h guess_correct[OF assms, of target tileIndex t v tid] obtain l where
    g: "guess target tileIndex tid v s =
          Some (Inr (checkWinner ?qs (s\<lparr>players := ?qs, phase := RESOLVE, turnLog := l\<rparr>)))"
    by blast
  show "\<exists>s'. guess target tileIndex tid v s = Some (Inr s') \<and>
                players s' = ?qs \<and>
                currentTurnPlayerId s' = currentTurnPlayerId s \<and>
                moveNumber s' = moveNumber s \<and> drawnTile s' = drawnTile s \<and> pool s' = pool s \<and>
                phase s' = (if length (activePlayers (players s')) = 1 then GAME_OVER else RESOLVE)"
    by (rule exI[of _ "checkWinner ?qs (s\<lparr>players := ?qs, phase := RESOLVE, turnLog := l\<rparr>)"])
       (simp add: g checkWinner_phase activePlayers_def)
next
  assume h: "phase s = GUESS \<and> pick rTarget (opponents s) = Some bt \<and>
            pick rTile (hiddenTiles bt) = Some (t', i) \<and>
            pick rValue (possibleValues jokers) = Some (tileValue t') \<and>
            findIndex (\<lambda>p. playerId p = currentTurnPlayerId s) (players s) = Some b \<and>
            \<not> isEliminated (players s ! b)"
  let ?ps = "botMerged s b (afterCorrectGuess (playerId bt) i (players s))"
  from h have e: "executeBotMove jokers rDraw rTarget rTile rValue s = botCorrect s bt i"
    by (intro executeBotMove_correct) simp_all
  from h opponents_member[OF pick_Some, of rTarget s bt]
  have bt: "bt \<in> set (players s)" "playerId bt \<noteq> currentTurnPlayerId s" by simp_all
  from h hiddenTiles_member[OF pick_Some, of rTile bt t' i]
  have i: "i < length (hand bt)" by simp
  from h have b: "findIndex (\<lambda>p. playerId p = currentTurnPlayerId s) (players s) = Some b"
    "\<not> isEliminated (players s ! b)" by simp_all
  from botCorrect_result[OF assms bt i b] obtain k where
    k: "firstActiveAfter ?ps b k" and
    r: "botCorrect s bt i = Some (Inr (checkWinner ?ps
        ((addLog BotCorrect s)\<lparr>players := ?ps, phase := DRAW,
            currentTurnPlayerId := playerId (?ps ! ((b + k) mod length (players s))),
            drawnTile := None\<rparr>)))"
    by blast
  show "\<exists>s' k. executeBotMove jokers rDraw rTarget rTile rValue s = Some (Inr s') \<and>
                players s' = ?ps \<and>
                moveNumber s' = moveNumber s \<and> drawnTile s' = None \<and> pool s' = pool s \<and>
                firstActiveAfter (players s') b k \<and>
                currentTurnPlayerId s' = playerId (players s' ! ((b + k) mod length (players s))) \<and>
                phase s' = (if length (activePlayers (players s')) = 1 then GAME_OVER else DRAW)"
    by (rule exI[of _ "checkWinner ?ps
        ((addLog BotCorrect s)\<lparr>players := ?ps, phase := DRAW,
            currentTurnPlayerId := playerId (?ps ! ((b + k) mod length (players s))),
            drawnTile := None\<rparr>)"], rule exI[of _ k])
       (simp add: e r k checkWinner_phase activePlayers_def)
qed

theorem correct_guess_witness:
  "distinct (map playerId (players firstDraw)) \<and>
   validGuess firstDraw 1 0 \<and> targetTile firstDraw 1 0 = Some (owned 1 (numberTile WHITE 2)) \<and>
   tileValue (owned 1 (numberTile WHITE 2)) = 2 \<and>
   (\<exists>s'. guess 1 0 (NumberedId WHITE 2) 2 firstDraw = Some (Inr s') \<and>
         players s' = afterCorrectGuess 1 0 (players firstDraw) \<and>
         currentTurnPlayerId s' = 0 \<and> moveNumber s' = 1 \<and> phase s' = RESOLVE) \<and>
   distinct (map playerId (players botToGuess)) \<and> phase botToGuess = GUESS \<and>
   pick 0 (opponents botToGuess) = Some (players botToGuess ! 0) \<and>
   pick 0 (hiddenTiles (players botToGuess ! 0)) = Some (owned 0 (numberTile WHITE 0), 1) \<and>
   pick 0 (possibleValues False) = Some (tileValue (owned 0 (numberTile WHITE 0))) \<and>
   findIndex (\<lambda>p. playerId p = currentTurnPlayerId botToGuess) (players botToGuess) = Some 1 \<and>
   \<not> isEliminated (players botToGuess ! 1) \<and>
   (\<exists>s' k. executeBotMove False 0 0 0 0 botToGuess = Some (Inr s') \<and>
         players s' = botMerged botToGuess 1 (afterCorrectGuess 0 1 (players botToGuess)) \<and>
         moveNumber s' = 2 \<and> drawnTile s' = None \<and>
         firstActiveAfter (players s') 1 k \<and>
         currentTurnPlayerId s' = playerId (players s' ! ((1 + k) mod 2)) \<and> phase s' = DRAW)"
proof -
  have a: "distinct (map playerId (players firstDraw))"
    and b: "validGuess firstDraw 1 0"
    and c: "targetTile firstDraw 1 0 = Some (owned 1 (numberTile WHITE 2))"
    and d: "tileValue (owned 1 (numberTile WHITE 2)) = 2"
    and e: "currentTurnPlayerId firstDraw = 0" "moveNumber firstDraw = 1"
    and f: "length (activePlayers (afterCorrectGuess 1 0 (players firstDraw))) = 2"
    by code_simp+
  have a': "distinct (map playerId (players botToGuess))"
    and b': "phase botToGuess = GUESS"
    and c': "pick 0 (opponents botToGuess) = Some (players botToGuess ! 0)"
    and d': "pick 0 (hiddenTiles (players botToGuess ! 0)) = Some (owned 0 (numberTile WHITE 0), 1)"
    and e': "pick 0 (possibleValues False) = Some (tileValue (owned 0 (numberTile WHITE 0)))"
    and f': "findIndex (\<lambda>p. playerId p = currentTurnPlayerId botToGuess) (players botToGuess) = Some 1"
    and g': "\<not> isEliminated (players botToGuess ! 1)"
    and h': "playerId (players botToGuess ! 0) = 0" "moveNumber botToGuess = 2"
      "length (players botToGuess) = 2"
    and i': "length (activePlayers (botMerged botToGuess 1 (afterCorrectGuess 0 1 (players botToGuess)))) = 2"
    by code_simp+
  from correct_guess[OF a, where tid = "NumberedId WHITE 2", THEN conjunct1, THEN mp,
      OF conjI[OF b conjI[OF c d]]]
  obtain s1 where "guess 1 0 (NumberedId WHITE 2) 2 firstDraw = Some (Inr s1)"
    "players s1 = afterCorrectGuess 1 0 (players firstDraw)"
    "currentTurnPlayerId s1 = currentTurnPlayerId firstDraw" "moveNumber s1 = moveNumber firstDraw"
    "phase s1 = (if length (activePlayers (players s1)) = 1 then GAME_OVER else RESOLVE)"
    by auto
  then have human: "\<exists>s'. guess 1 0 (NumberedId WHITE 2) 2 firstDraw = Some (Inr s') \<and>
         players s' = afterCorrectGuess 1 0 (players firstDraw) \<and>
         currentTurnPlayerId s' = 0 \<and> moveNumber s' = 1 \<and> phase s' = RESOLVE"
    using e f by (intro exI[of _ s1]) simp
  from correct_guess[OF a', where rDraw = 0, THEN conjunct2, THEN mp,
      OF conjI[OF b' conjI[OF c' conjI[OF d' conjI[OF e' conjI[OF f' g']]]]]]
  obtain s2 k where "executeBotMove False 0 0 0 0 botToGuess = Some (Inr s2)"
    "players s2 = botMerged botToGuess 1 (afterCorrectGuess (playerId (players botToGuess ! 0)) 1 (players botToGuess))"
    "moveNumber s2 = moveNumber botToGuess" "drawnTile s2 = None"
    "firstActiveAfter (players s2) 1 k"
    "currentTurnPlayerId s2 = playerId (players s2 ! ((1 + k) mod length (players botToGuess)))"
    "phase s2 = (if length (activePlayers (players s2)) = 1 then GAME_OVER else DRAW)"
    by auto
  then have bot: "\<exists>s' k. executeBotMove False 0 0 0 0 botToGuess = Some (Inr s') \<and>
         players s' = botMerged botToGuess 1 (afterCorrectGuess 0 1 (players botToGuess)) \<and>
         moveNumber s' = 2 \<and> drawnTile s' = None \<and>
         firstActiveAfter (players s') 1 k \<and>
         currentTurnPlayerId s' = playerId (players s' ! ((1 + k) mod 2)) \<and> phase s' = DRAW"
    using h' i' by (intro exI[of _ s2] exI[of _ k]) simp
  from a b c d human a' b' c' d' e' f' g' bot show ?thesis by simp
qed

text \<open>
  Claim C7, as the specification has it: the sort key of a joker changes only through a
  reposition command. In the game with jokers the bot holds the turn in the phase
  \<open>DRAW\<close> and the white joker lies at the drawing end of the pool with the key 100 it
  was created with. The draw command (\<open>drawTile\<close>, the random number being 1/4) puts
  the joker into the drawn-tile slot with the key 3, and no tile of the state has its
  has-been-repositioned flag set: the key has changed and no reposition took place.
\<close>

theorem joker_rekeyed_at_draw_counterexample:
  "reachable botToDraw \<and> step botToDraw botDrew \<and>
   last (pool botToDraw) = jokerTile WHITE \<and> sortValue (jokerTile WHITE) = 100 \<and>
   drawnTile botDrew = Some ((owned 1 (jokerTile WHITE))\<lparr>sortValue := 3\<rparr>) \<and>
   placedIds botDrew = {}"
proof -
  have a: "step botToDraw botDrew" unfolding botDrew_def by (rule step.draw)
  have b: "last (pool botToDraw) = jokerTile WHITE" by code_simp
  have c: "sortValue (jokerTile WHITE) = 100" by code_simp
  have d: "drawnTile botDrew = Some ((owned 1 (jokerTile WHITE))\<lparr>sortValue := 3\<rparr>)" by code_simp
  have e: "placedIds botDrew = {}" by code_simp
  from reachable_botToDraw a b c d e show ?thesis by simp
qed

text \<open>
  Claim C7, amended. In every reachable state no two tiles carry the same identifier and
  the sort key of every tile that is no joker is its value. A command never clears a
  has-been-repositioned flag, and it leaves the table of the tiles (identifier, joker
  flag, value, sort key and flag of each tile) as it was unless it is the draw of a
  joker by a bot or an accepted reposition. When a bot draws a joker, that joker gets
  the key \<open>r * 12\<close>, \<open>r\<close> the random number, its flag stays as it is, and no other tile
  changes. A reposition command on a tile whose flag is set returns the state unchanged.
  An accepted reposition of the tile \<open>d\<close> finds \<open>d\<close> a joker with its flag not set, gives it
  a new key and sets the flag, and no other tile changes. So the key of a joker changes
  only when a bot draws it and when it is repositioned, and it is repositioned at most
  once.
\<close>

theorem joker_keys:
  assumes "reachable s"
  shows "uniqueIds s \<and> keysFaithful s \<and>
     (step s s' \<longrightarrow> placedIds s \<subseteq> placedIds s' \<and>
        (tileTable s' = tileTable s \<or> (\<exists>r. s' = drawTile r s \<and> botDrawsJoker s) \<or>
         (\<exists>d x. s' = handleDrop d x s \<and> s' \<noteq> s))) \<and>
     (botDrawsJoker s \<longrightarrow>
        (\<exists>i v k p. (i, True, v, k, p) \<in># tileTable s \<and>
           tileTable (drawTile r s)
             = add_mset (i, True, v, r * 12, p) (tileTable s - {#(i, True, v, k, p)#}))) \<and>
     (d \<in> placedIds s \<longrightarrow> handleDrop d x s = s) \<and>
     (handleDrop d x s \<noteq> s \<longrightarrow>
        (\<exists>v k k'. (d, True, v, k, False) \<in># tileTable s \<and>
           tileTable (handleDrop d x s)
             = add_mset (d, True, v, k', True) (tileTable s - {#(d, True, v, k, False)#})))"
proof -
  from reachable_wellFormed[OF assms] have wf: "wellFormed s" .
  then have dist: "distinct (map playerId (players s))"
    and slot: "phase s = DRAW \<longrightarrow> drawnTile s = None"
    by (simp_all add: wellFormed_def)
  from reachable_tiles[OF assms] have u: "uniqueIds s" and k: "keysFaithful s" by simp_all
  have st: "step s s' \<longrightarrow> placedIds s \<subseteq> placedIds s' \<and>
        (tileTable s' = tileTable s \<or> (\<exists>r. s' = drawTile r s \<and> botDrawsJoker s) \<or>
         (\<exists>d x. s' = handleDrop d x s \<and> s' \<noteq> s))"
    using step_tiles(3)[OF wf u] step_table[OF wf] by blast
  have dr: "botDrawsJoker s \<longrightarrow>
        (\<exists>i v k p. (i, True, v, k, p) \<in># tileTable s \<and>
           tileTable (drawTile r s)
             = add_mset (i, True, v, r * 12, p) (tileTable s - {#(i, True, v, k, p)#}))"
    using tileTable_drawTile[OF slot, of r] by simp
  have pl: "d \<in> placedIds s \<longrightarrow> handleDrop d x s = s"
    using handleDrop_placed[OF u] by blast
  have ac: "handleDrop d x s \<noteq> s \<longrightarrow>
        (\<exists>v k k'. (d, True, v, k, False) \<in># tileTable s \<and>
           tileTable (handleDrop d x s)
             = add_mset (d, True, v, k', True) (tileTable s - {#(d, True, v, k, False)#}))"
    using tileTable_handleDrop[OF dist u, of d x] by blast
  from u k st dr pl ac show ?thesis by (intro conjI)
qed

theorem joker_keys_witness:
  "reachable jokerDrawn \<and> uniqueIds jokerDrawn \<and> keysFaithful jokerDrawn \<and>
   step jokerDrawn jokerPlaced \<and> placedIds jokerDrawn \<subseteq> placedIds jokerPlaced \<and>
   handleDrop (JokerId BLACK) (NumberedId WHITE 1) jokerDrawn \<noteq> jokerDrawn \<and>
   (\<exists>v k k'. (JokerId BLACK, True, v, k, False) \<in># tileTable jokerDrawn \<and>
       tileTable (handleDrop (JokerId BLACK) (NumberedId WHITE 1) jokerDrawn)
         = add_mset (JokerId BLACK, True, v, k', True)
             (tileTable jokerDrawn - {#(JokerId BLACK, True, v, k, False)#})) \<and>
   reachable jokerPlaced \<and> JokerId BLACK \<in> placedIds jokerPlaced \<and>
   handleDrop (JokerId BLACK) (NumberedId BLACK 1) jokerPlaced = jokerPlaced \<and>
   reachable botToDraw \<and> botDrawsJoker botToDraw \<and>
   (\<exists>i v k p. (i, True, v, k, p) \<in># tileTable botToDraw \<and>
       tileTable (drawTile (1 / 4) botToDraw)
         = add_mset (i, True, v, 1 / 4 * 12, p) (tileTable botToDraw - {#(i, True, v, k, p)#}))"
proof -
  have a: "step jokerDrawn jokerPlaced" unfolding jokerPlaced_def by (rule step.drop)
  have b: "handleDrop (JokerId BLACK) (NumberedId WHITE 1) jokerDrawn \<noteq> jokerDrawn" by code_simp
  have c: "JokerId BLACK \<in> placedIds jokerPlaced" by code_simp
  have d: "botDrawsJoker botToDraw" by code_simp
  note t1 = joker_keys[OF reachable_jokerDrawn, where s' = jokerPlaced and d = "JokerId BLACK"
      and x = "NumberedId WHITE 1"]
  note t2 = joker_keys[OF reachable_jokerPlaced, where d = "JokerId BLACK" and x = "NumberedId BLACK 1"]
  note t3 = joker_keys[OF reachable_botToDraw, where r = "1 / 4"]
  from t1 have u: "uniqueIds jokerDrawn" and k: "keysFaithful jokerDrawn" by simp_all
  from t1 a have s: "placedIds jokerDrawn \<subseteq> placedIds jokerPlaced" by blast
  from t1 b have e: "\<exists>v k k'. (JokerId BLACK, True, v, k, False) \<in># tileTable jokerDrawn \<and>
       tileTable (handleDrop (JokerId BLACK) (NumberedId WHITE 1) jokerDrawn)
         = add_mset (JokerId BLACK, True, v, k', True)
             (tileTable jokerDrawn - {#(JokerId BLACK, True, v, k, False)#})" by blast
  from t2 c have f: "handleDrop (JokerId BLACK) (NumberedId BLACK 1) jokerPlaced = jokerPlaced"
    by blast
  from t3 d have g: "\<exists>i v k p. (i, True, v, k, p) \<in># tileTable botToDraw \<and>
       tileTable (drawTile (1 / 4) botToDraw)
         = add_mset (i, True, v, 1 / 4 * 12, p) (tileTable botToDraw - {#(i, True, v, k, p)#})"
    by blast
  from reachable_jokerDrawn u k a s b e reachable_jokerPlaced c f reachable_botToDraw d g
  show ?thesis by (intro conjI)
qed

end
